theory Spec2Isabelle
  imports Complex_Main "HOL-Library.Word" "HOL-Library.Signed_Division"
begin

section \<open>Foot measurement from one photograph: the program of hwaelMain.cpp\<close>

text \<open>
  The program is a single \<open>main\<close>: it loads one image, filters it, asks the vision
  library for contours and circles, selects the largest bounding rectangle and the largest
  circle radius, divides the known coin radius by that pixel radius and prints the foot's
  height and width in pixels and in centimetres.

  The image filters, the contour extraction and the circle transform are the vision
  library's. The program never looks inside an image, so an image buffer is modelled by
  the sequence of library calls that produced it (a term of type \<open>Mat\<close>), and the
  library routines that return data are the fields of a record \<open>cv\<close>, over which every
  theorem quantifies. The arithmetic and the two selection loops are the program's own
  and are modelled as written.
\<close>

subsection \<open>Integers, points, rectangles\<close>

text \<open>C++ \<open>int\<close>: 32 bits, read as two's complement by \<open>sint\<close>; \<open>*\<close> wraps.\<close>

type_synonym int32 = "32 word"

datatype Point = Point int32 int32

text \<open>\<open>cv::Rect\<close>: top-left corner, width and height. Its default constructor sets
  every field to zero; \<open>tl()\<close> and \<open>br()\<close> are the top-left and bottom-right corners.\<close>

record Rect =
  rect_x :: int32
  rect_y :: int32
  width :: int32
  height :: int32

definition Rect_default :: Rect where
  "Rect_default = \<lparr>rect_x = 0, rect_y = 0, width = 0, height = 0\<rparr>"

text \<open>C++ \<open>/\<close> on \<open>int\<close>: the quotient truncated towards zero.\<close>

definition int_div :: "int32 \<Rightarrow> int32 \<Rightarrow> int32" where
  "int_div a b = word_of_int (sint a sdiv sint b)"

definition tl :: "Rect \<Rightarrow> Point" where
  "tl r = Point (rect_x r) (rect_y r)"

definition br :: "Rect \<Rightarrow> Point" where
  "br r = Point (rect_x r + width r) (rect_y r + height r)"

text \<open>\<open>Vec3f\<close> (three floats, here the finite reals they denote) and \<open>Vec3i\<close>.\<close>

datatype Vec3f = Vec3f real real real

datatype Vec3i = Vec3i int32 int32 int32

text \<open>\<open>Scalar(v0, v1, v2)\<close>; \<open>CV_RGB(r, g, b)\<close> is \<open>Scalar(b, g, r)\<close>.\<close>

datatype Scalar = Scalar int int int

definition CV_RGB :: "int \<Rightarrow> int \<Rightarrow> int \<Rightarrow> Scalar" where
  "CV_RGB r g b = Scalar b g r"

subsection \<open>Image buffers as the calls that produced them\<close>

datatype ColorConversionCodes = COLOR_RGB2HSV | COLOR_RGB2GRAY

datatype ThresholdTypes = THRESH_TOZERO

datatype LineTypes = LINE_8 | LINE_AA

datatype HersheyFonts = FONT_HERSHEY_COMPLEX_SMALL

datatype RetrievalModes = RETR_TREE

datatype ContourApproximationModes = CHAIN_APPROX_SIMPLE

datatype HoughModes = HOUGH_GRADIENT

text \<open>
  One constructor for each library call of \<open>main\<close> that writes an image. The first
  argument is the buffer the call reads; the others are the call's arguments in the
  source's order. \<open>split_chann m k\<close> is \<open>split(m, chann); chann[k]\<close>. \<open>rectangle\<close>
  and \<open>putText\<close> are called without a line type.
\<close>

datatype Mat =
    imread string
  | GaussianBlur Mat "nat \<times> nat" real real
  | cvtColor Mat ColorConversionCodes
  | split_chann Mat nat
  | threshold Mat real real ThresholdTypes
  | Canny Mat real real
  | circle Mat Point int32 Scalar int LineTypes
  | rectangle Mat Point Point Scalar int
  | putText Mat string Point HersheyFonts real Scalar int

subsection \<open>Floating point\<close>

text \<open>
  A \<open>float\<close> is a finite value, an infinity or a NaN. A finite float is modelled by the
  real it denotes (the sign of a zero is not kept; the program never produces a negative
  zero, its integers being converted and its scale being positive). Every operation that
  rounds goes through the rounding function \<open>fl\<close> of the platform record below.

  The theorems assume of it only \<open>rounding\<close>: zero is exact, and a value whose magnitude
  lies in the normal range of a 32-bit float, from \<open>2\<^sup>-\<^sup>1\<^sup>2\<^sup>6\<close> to \<open>2\<^sup>1\<^sup>2\<^sup>7\<close>, is
  rounded with a relative error of at most \<open>u\<close>. Rounding to nearest in 32-bit floats
  is such a function for \<open>u = 2\<^sup>-\<^sup>2\<^sup>4\<close>. The finite values this program computes are
  zero or in that range: the dividend is 1.325, divisors and factors are 32-bit integers.
\<close>

datatype float = Fin real | PInf | NInf | NaN

definition normal_min :: real where
  "normal_min = 1 / 2 ^ 126"

definition normal_max :: real where
  "normal_max = 2 ^ 127"

definition rounding :: "(real \<Rightarrow> real) \<Rightarrow> real \<Rightarrow> bool" where
  "rounding rnd u \<longleftrightarrow>
     0 \<le> u \<and> u \<le> 1 / 8 \<and> rnd 0 = 0 \<and>
     (\<forall>x. normal_min \<le> \<bar>x\<bar> \<and> \<bar>x\<bar> \<le> normal_max \<longrightarrow> \<bar>rnd x - x\<bar> \<le> u * \<bar>x\<bar>)"

text \<open>\<open>a / i\<close> with \<open>a\<close> a float and \<open>i\<close> an int: \<open>i\<close> is converted to float (never a NaN,
  an infinity or a negative zero) and the quotient is rounded. A non-zero finite value
  divided by zero is an infinity of its sign, zero divided by zero is NaN.\<close>

definition div_float_int :: "(real \<Rightarrow> real) \<Rightarrow> float \<Rightarrow> int32 \<Rightarrow> float" where
  "div_float_int rnd a i =
     (let b = rnd (real_of_int (sint i)) in
      case a of
        NaN \<Rightarrow> NaN
      | Fin x \<Rightarrow>
          if b = 0 then (if x = 0 then NaN else if 0 < x then PInf else NInf)
          else Fin (rnd (x / b))
      | PInf \<Rightarrow> if 0 \<le> b then PInf else NInf
      | NInf \<Rightarrow> if 0 \<le> b then NInf else PInf)"

text \<open>\<open>i * b\<close> with \<open>i\<close> an int and \<open>b\<close> a float. Zero times an infinity is NaN.\<close>

definition mul_int_float :: "(real \<Rightarrow> real) \<Rightarrow> int32 \<Rightarrow> float \<Rightarrow> float" where
  "mul_int_float rnd i b =
     (let a = rnd (real_of_int (sint i)) in
      case b of
        NaN \<Rightarrow> NaN
      | Fin y \<Rightarrow> Fin (rnd (a * y))
      | PInf \<Rightarrow> if a = 0 then NaN else if 0 < a then PInf else NInf
      | NInf \<Rightarrow> if a = 0 then NaN else if 0 < a then NInf else PInf)"

subsection \<open>The library and the platform\<close>

text \<open>
  What \<open>main\<close> takes from outside: the rounding of float arithmetic, the conversion of
  a float to an int that \<open>Vec3i c = circles[i]\<close> applies to each component
  (\<open>saturate_cast<int>\<close>), the row count of an image, and the library routines that return
  data. \<open>HoughCircles\<close> takes the image and, as a record named after the library's
  parameters, the method, dp, minDist, param1, param2, minRadius and maxRadius that the
  source passes in this order.
\<close>

record HoughCircles_args =
  hough_method :: HoughModes
  dp :: real
  minDist :: real
  param1 :: real
  param2 :: real
  minRadius :: int
  maxRadius :: int

record cv =
  fl :: "real \<Rightarrow> real"
  saturate_cast :: "real \<Rightarrow> int32"
  rows :: "Mat \<Rightarrow> int32"
  findContours :: "Mat \<Rightarrow> RetrievalModes \<Rightarrow> ContourApproximationModes \<Rightarrow> Point list list"
  approxPolyDP :: "Point list \<Rightarrow> real \<Rightarrow> bool \<Rightarrow> Point list"
  boundingRect :: "Point list \<Rightarrow> Rect"
  HoughCircles :: "Mat \<Rightarrow> HoughCircles_args \<Rightarrow> Vec3f list"

text \<open>
  The library's own conversion. The conversion operator from \<open>Vec<float, 3>\<close> to
  \<open>Vec<int, 3>\<close> (core/matx.hpp) applies \<open>saturate_cast<int>\<close> to each component, and
  \<open>saturate_cast<int>(float v)\<close> is \<open>cvRound(v)\<close> (core/saturate.hpp): the nearest
  integer, a tie going to the even one. It is not a C++ cast, which would truncate.
  Values outside the range of \<open>int\<close> are not modelled here (a detected radius is at most
  maxRadius), which is why the record above keeps the conversion as a field.
\<close>

definition cvRound :: "real \<Rightarrow> int32" where
  "cvRound v =
     (let f = \<lfloor>v\<rfloor>; d = v - of_int f
      in word_of_int (if d < 1 / 2 then f else if 1 / 2 < d then f + 1
                      else if even f then f else f + 1))"

subsection \<open>What the program shows and prints\<close>

datatype event =
    imshow string Mat
  | waitKey int
  | cout_str string
  | cout_int int32
  | cout_float float
  | cout_endl

text \<open>\<open>printed label es\<close> is the item sent to \<open>cout\<close> right after the string
  \<open>label\<close>, if that string was printed and something followed it.\<close>

fun printed :: "string \<Rightarrow> event list \<Rightarrow> event option" where
  "printed label [] = None"
| "printed label [ev] = None"
| "printed label (ev # v # es) =
     (if ev = cout_str label then Some v else printed label (v # es))"

text \<open>\<open>drawn m\<close> lists what the drawing calls behind the buffer \<open>m\<close> put on it, oldest
  first: circles with centre and radius, rectangles with their two corners, captions.\<close>

datatype shape = a_circle Point int32 | a_rectangle Point Point | a_text string

fun drawn :: "Mat \<Rightarrow> shape list" where
  "drawn (imread f) = []"
| "drawn (GaussianBlur m k sx sy) = drawn m"
| "drawn (cvtColor m c) = drawn m"
| "drawn (split_chann m k) = drawn m"
| "drawn (threshold m t mx ty) = drawn m"
| "drawn (Canny m t1 t2) = drawn m"
| "drawn (circle m c r col th lt) = drawn m @ [a_circle c r]"
| "drawn (rectangle m p q col th) = drawn m @ [a_rectangle p q]"
| "drawn (putText m txt org f sc col th) = drawn m @ [a_text txt]"

subsection \<open>main, block by block\<close>

text \<open>Line 38: \<open>const float Toonie_RADIUS = 1.325;\<close>\<close>

definition Toonie_RADIUS :: "cv \<Rightarrow> float" where
  "Toonie_RADIUS e = Fin (fl e (1325 / 1000))"

text \<open>Lines 41 to 47. The image read from the file is blurred in place, so the blurred
  image is what every later stage reads; it is then converted, its channel 1 is kept and
  thresholded. The result is the pair of \<open>bottomTestImage\<close> and \<open>hsv\<close>.\<close>

definition SkinMask :: "Mat \<Rightarrow> Mat \<times> Mat" where
  "SkinMask input =
     (let bottomTestImage = GaussianBlur input (3, 3) 0 0;
          hsv = cvtColor bottomTestImage COLOR_RGB2HSV;
          hsv = split_chann hsv 1;
          hsv = threshold hsv 45 255 THRESH_TOZERO
      in (bottomTestImage, hsv))"

text \<open>Lines 59 to 70: the scan for the largest bounding rectangle. The comparison is
  the source's: a signed comparison of two wrapped 32-bit products. The polygon and the
  rectangle of each contour are stored in vectors that nothing reads afterwards, and
  \<open>maxArea\<close> is declared and never used.\<close>

fun footRect_loop :: "cv \<Rightarrow> Point list list \<Rightarrow> Rect \<Rightarrow> Rect" where
  "footRect_loop e [] footRect = footRect"
| "footRect_loop e (c # cs) footRect =
     (let contours_poly_i = approxPolyDP e c 3 True;
          boundRect_i = boundingRect e contours_poly_i
      in footRect_loop e cs
           (if width footRect * height footRect <s width boundRect_i * height boundRect_i
            then boundRect_i else footRect))"

text \<open>Lines 81 to 90: the scan over the circles. Each circle is converted to integers,
  its radius competes for \<open>TooniePixelRadius\<close>, and it is drawn.\<close>

definition color :: Scalar where
  "color = Scalar 0 128 0"

fun Vec3i_of :: "cv \<Rightarrow> Vec3f \<Rightarrow> Vec3i" where
  "Vec3i_of e (Vec3f a b r) = Vec3i (saturate_cast e a) (saturate_cast e b) (saturate_cast e r)"

fun circles_loop :: "cv \<Rightarrow> Vec3f list \<Rightarrow> int32 \<times> Mat \<Rightarrow> int32 \<times> Mat" where
  "circles_loop e [] s = s"
| "circles_loop e (v # vs) (TooniePixelRadius, img) =
     (case Vec3i_of e v of Vec3i c0 c1 c2 \<Rightarrow>
        let center = Point c0 c1;
            radius = c2
        in circles_loop e vs
             (if TooniePixelRadius <s radius then radius else TooniePixelRadius,
              circle img center radius color 2 LINE_AA))"

text \<open>The result of a run: the variables of \<open>main\<close> at its end, and what it showed and
  printed, in order. \<open>findContours\<close> is taken to leave the edge map it reads unchanged.\<close>

record run =
  bottomTestImage :: Mat
  hsv :: Mat
  cannyHSV :: Mat
  gray :: Mat
  contours :: "Point list list"
  footRect :: Rect
  circles :: "Vec3f list"
  TooniePixelRadius :: int32
  pixels_per_metric :: float
  trace :: "event list"

text \<open>Line 78: the arguments of the circle transform.\<close>

definition hough_args :: HoughCircles_args where
  "hough_args = \<lparr>hough_method = HOUGH_GRADIENT, dp = 3 / 2, minDist = 50, param1 = 150,
     param2 = 40, minRadius = 0, maxRadius = 30\<rparr>"

definition main :: "cv \<Rightarrow> run" where
  "main e =
     (let (img0, hsv0) = SkinMask (imread ''soleTestWithReference.png'');
          cannyHSV0 = Canny hsv0 150 225;
          contours0 = findContours e cannyHSV0 RETR_TREE CHAIN_APPROX_SIMPLE;
          footRect0 = footRect_loop e contours0 Rect_default;
          gray0 = GaussianBlur (cvtColor img0 COLOR_RGB2GRAY) (3, 3) 0 0;
          circles0 = HoughCircles e gray0 hough_args;
          (radius0, img1) = circles_loop e circles0 (0, img0);
          ppm = div_float_int (fl e) (Toonie_RADIUS e) radius0;
          img2 = rectangle img1 (tl footRect0) (br footRect0) color 2;
          hsv1 = putText hsv0 ''HSV-Filtered Image'' (Point 10 (int_div (rows e hsv0) 10))
                   FONT_HERSHEY_COMPLEX_SMALL 1 (CV_RGB 255 255 255) 2;
          cannyHSV1 = putText cannyHSV0 ''Canny Edge Detection'' (Point 10 (int_div (rows e hsv1) 10))
                   FONT_HERSHEY_COMPLEX_SMALL 1 (CV_RGB 255 255 255) 2;
          img3 = putText img2 ''Detected Foot + Toonie Contours'' (Point 10 (int_div (rows e hsv1) 10))
                   FONT_HERSHEY_COMPLEX_SMALL 1 (CV_RGB 0 0 0) 2
      in \<lparr>bottomTestImage = img3, hsv = hsv1, cannyHSV = cannyHSV1, gray = gray0,
          contours = contours0, footRect = footRect0, circles = circles0,
          TooniePixelRadius = radius0, pixels_per_metric = ppm,
          trace =
            [imshow ''ImageOutput'' hsv1, waitKey 6000,
             imshow ''ImageOutput'' cannyHSV1, waitKey 4000,
             imshow ''ImageOutput'' img3, waitKey 4000,
             cout_str (''Toonie MEASUREMENT OUTPUTS '' @ [CHR 0x0A]),
             cout_str (''********************************** '' @ [CHR 0x0A]),
             cout_str ''Radius in image (pixels) '', cout_int radius0, cout_endl,
             cout_str ''Radius in real-life (known constant) - '',
               cout_float (Toonie_RADIUS e), cout_endl,
             cout_str ''Centimetres-Per-Pixel - '', cout_float ppm, cout_endl,
             cout_str ([CHR 0x0A] @ ''FOOT MEASUREMENT OUTPUTS '' @ [CHR 0x0A]),
             cout_str (''********************************** '' @ [CHR 0x0A]),
             cout_str ''Foot Length (pixels) - '', cout_int (height footRect0), cout_endl,
             cout_str ''Foot Length (cm) - '',
               cout_float (mul_int_float (fl e) (height footRect0) ppm), cout_endl,
             cout_str ''Foot Width (pixels) - '', cout_int (width footRect0), cout_endl,
             cout_str ''Foot Width(cm) - '',
               cout_float (mul_int_float (fl e) (width footRect0) ppm), cout_endl,
             waitKey 0]\<rparr>)"

subsection \<open>Notions the properties are stated with\<close>

text \<open>The image every stage after the first reads: the input, blurred in place.\<close>

definition input_blurred :: Mat where
  "input_blurred = fst (SkinMask (imread ''soleTestWithReference.png''))"

text \<open>The bounding rectangle the first loop computes for a contour, the area of a
  rectangle as a number, and the rectangles whose 32-bit product \<open>width * height\<close> is
  that number (the product does not overflow).\<close>

definition brect :: "cv \<Rightarrow> Point list \<Rightarrow> Rect" where
  "brect e c = boundingRect e (approxPolyDP e c 3 True)"

definition area :: "Rect \<Rightarrow> int" where
  "area r = sint (width r) * sint (height r)"

definition no_overflow :: "Rect \<Rightarrow> bool" where
  "no_overflow r \<longleftrightarrow> - (2 ^ 31) \<le> area r \<and> area r < 2 ^ 31"

text \<open>The float radius of a detected circle, and the integer centre and radius the second
  loop takes from it.\<close>

fun radius_f :: "Vec3f \<Rightarrow> real" where
  "radius_f (Vec3f a b r) = r"

definition radius_of :: "cv \<Rightarrow> Vec3f \<Rightarrow> int32" where
  "radius_of e v = (case Vec3i_of e v of Vec3i c0 c1 c2 \<Rightarrow> c2)"

definition center_of :: "cv \<Rightarrow> Vec3f \<Rightarrow> Point" where
  "center_of e v = (case Vec3i_of e v of Vec3i c0 c1 c2 \<Rightarrow> Point c0 c1)"

text \<open>The skin-mask stage in the order the specification gives: conversion first, then
  the blur, then the saturation channel, then the threshold.\<close>

definition SkinMask_spec :: "Mat \<Rightarrow> Mat" where
  "SkinMask_spec input =
     (let hsv = cvtColor input COLOR_RGB2HSV;
          hsv = GaussianBlur hsv (3, 3) 0 0;
          hsv = split_chann hsv 1
      in threshold hsv 45 255 THRESH_TOZERO)"

text \<open>A C++ cast from float to int, which the specification takes the conversion of a
  radius to be: the fraction is dropped.\<close>

definition truncate_cast :: "real \<Rightarrow> int32" where
  "truncate_cast v = word_of_int (if 0 \<le> v then \<lfloor>v\<rfloor> else \<lceil>v\<rceil>)"

subsection \<open>Concrete libraries for the examples\<close>

text \<open>
  \<open>lib cs vs\<close> is a library and platform that finds the contours \<open>cs\<close> and the circles
  \<open>vs\<close>, rounds nothing (every value of the examples is exact), converts floats to
  ints as the real library does, leaves a contour as its own polygon and bounds a
  two-corner polygon by the rectangle between the corners.
\<close>

definition bbox :: "Point list \<Rightarrow> Rect" where
  "bbox ps =
     (case ps of
        [Point a b, Point c d] \<Rightarrow> \<lparr>rect_x = a, rect_y = b, width = c - a + 1, height = d - b + 1\<rparr>
      | _ \<Rightarrow> Rect_default)"

definition lib :: "Point list list \<Rightarrow> Vec3f list \<Rightarrow> cv" where
  "lib cs vs =
     \<lparr>fl = (\<lambda>x. x), saturate_cast = cvRound, rows = (\<lambda>m. 480),
      findContours = (\<lambda>m mode method. cs), approxPolyDP = (\<lambda>c eps closed. c),
      boundingRect = bbox, HoughCircles = (\<lambda>m args. vs)\<rparr>"

text \<open>Three contours, the second and third of the same largest area (30 by 80 and 40
  by 60), and two circles of radius 26.5 and 12.\<close>

definition demo :: cv where
  "demo = lib [[Point 0 0, Point 9 19], [Point 5 6, Point 34 85], [Point 1 1, Point 40 60]]
              [Vec3f 300 200 (53 / 2), Vec3f 20 30 12]"

text \<open>The demo on a platform whose every rounding is off by the factor
  \<open>1 + 2\<^sup>-\<^sup>2\<^sup>4\<close>.\<close>

definition demo_inexact :: cv where
  "demo_inexact = demo\<lparr>fl := (\<lambda>x. x * (1 + 1 / 2 ^ 24))\<rparr>"

text \<open>The same two radii at other centres.\<close>

definition demo_moved :: cv where
  "demo_moved = lib [] [Vec3f 10 10 (53 / 2), Vec3f 400 300 12]"

text \<open>The same image with no circle found, with no contour found, and with neither.\<close>

definition no_circles :: cv where
  "no_circles = lib [[Point 5 6, Point 34 85]] []"

definition no_contours :: cv where
  "no_contours = lib [] [Vec3f 300 200 (53 / 2)]"

definition nothing_found :: cv where
  "nothing_found = lib [] []"

text \<open>One small circle of radius 2.6.\<close>

definition small_coin :: cv where
  "small_coin = lib [] [Vec3f 100 100 (26 / 10)]"

section \<open>Lemmas\<close>

subsection \<open>A scan that keeps the first largest element\<close>

text \<open>Both loops of \<open>main\<close> are this scan: the running choice changes only for a
  strictly larger key. Either nothing beats the start value, or the result is the
  element at the first index where the largest key occurs.\<close>

lemma first_max_fold:
  fixes key :: "'a \<Rightarrow> int"
  shows "(if \<forall>x \<in> set xs. key x \<le> key a
          then fold (\<lambda>x b. if key b < key x then x else b) xs a = a
          else \<exists>i < length xs. fold (\<lambda>x b. if key b < key x then x else b) xs a = xs ! i
                 \<and> key a < key (xs ! i)
                 \<and> (\<forall>j < i. key (xs ! j) < key (xs ! i))
                 \<and> (\<forall>j < length xs. key (xs ! j) \<le> key (xs ! i)))"
    (is "?P xs a")
proof (induction xs arbitrary: a)
  case Nil
  show ?case by simp
next
  case (Cons x xs)
  let ?f = "\<lambda>x b. if key b < key x then x else b"
  define a' where "a' = ?f x a"
  have step: "fold ?f (x # xs) a = fold ?f xs a'" by (simp add: a'_def)
  have a': "key a \<le> key a'" "key x \<le> key a'" by (simp_all add: a'_def)
  note IH = Cons.IH[of a']
  show ?case
  proof (cases "\<forall>y \<in> set xs. key y \<le> key a'")
    case all: True
    with IH have res: "fold ?f xs a' = a'" by simp
    show ?thesis
    proof (cases "key a < key x")
      case True
      then have "a' = x" by (simp add: a'_def)
      with res step True all have
        "\<exists>i < length (x # xs). fold ?f (x # xs) a = (x # xs) ! i
                 \<and> key a < key ((x # xs) ! i)
                 \<and> (\<forall>j < i. key ((x # xs) ! j) < key ((x # xs) ! i))
                 \<and> (\<forall>j < length (x # xs). key ((x # xs) ! j) \<le> key ((x # xs) ! i))"
        by (intro exI[where x=0]) (auto simp: nth_Cons')
      moreover have "\<not> (\<forall>y \<in> set (x # xs). key y \<le> key a)" using True by auto
      ultimately show ?thesis by (simp only: if_False)
    next
      case False
      then have "a' = a" by (simp add: a'_def)
      with res step False all show ?thesis by auto
    qed
  next
    case nall: False
    with IH obtain i where i: "i < length xs" "fold ?f xs a' = xs ! i"
        "key a' < key (xs ! i)"
        "\<forall>j < i. key (xs ! j) < key (xs ! i)"
        "\<forall>j < length xs. key (xs ! j) \<le> key (xs ! i)"
      by auto
    have "\<exists>k < length (x # xs). fold ?f (x # xs) a = (x # xs) ! k
                 \<and> key a < key ((x # xs) ! k)
                 \<and> (\<forall>j < k. key ((x # xs) ! j) < key ((x # xs) ! k))
                 \<and> (\<forall>j < length (x # xs). key ((x # xs) ! j) \<le> key ((x # xs) ! k))"
      using i a' step
      by (intro exI[where x="Suc i"]) (auto simp: nth_Cons' less_Suc_eq_0_disj)
    moreover have "\<not> (\<forall>y \<in> set (x # xs). key y \<le> key a)"
      using i a' by (metis nth_mem list.set_intros(2) not_le order.strict_trans2 order_trans)
    ultimately show ?thesis by (simp only: if_False)
  qed
qed

lemma first_max_fold_none:
  fixes key :: "'a \<Rightarrow> int"
  assumes "\<forall>x \<in> set xs. key x \<le> key a"
  shows "fold (\<lambda>x b. if key b < key x then x else b) xs a = a"
  using first_max_fold[of xs key a] assms by (simp only: if_True)

lemma first_max_fold_some:
  fixes key :: "'a \<Rightarrow> int"
  assumes "\<not> (\<forall>x \<in> set xs. key x \<le> key a)"
  shows "\<exists>i < length xs. fold (\<lambda>x b. if key b < key x then x else b) xs a = xs ! i
           \<and> key a < key (xs ! i)
           \<and> (\<forall>j < i. key (xs ! j) < key (xs ! i))
           \<and> (\<forall>j < length xs. key (xs ! j) \<le> key (xs ! i))"
  using first_max_fold[of xs key a] assms by (simp only: if_False)

subsection \<open>The fields of a run\<close>

lemma main_footRect:
  "footRect (main e) = footRect_loop e (contours (main e)) Rect_default"
  by (simp add: main_def Let_def split_def)

lemma main_circles:
  "circles (main e) = HoughCircles e (gray (main e)) hough_args"
  by (simp add: main_def Let_def split_def)

lemma main_gray:
  "gray (main e) = GaussianBlur (cvtColor input_blurred COLOR_RGB2GRAY) (3, 3) 0 0"
  by (simp add: main_def Let_def split_def input_blurred_def)

lemma main_hsv:
  "hsv (main e) =
     putText (snd (SkinMask (imread ''soleTestWithReference.png''))) ''HSV-Filtered Image''
       (Point 10 (int_div (rows e (snd (SkinMask (imread ''soleTestWithReference.png'')))) 10))
       FONT_HERSHEY_COMPLEX_SMALL 1 (CV_RGB 255 255 255) 2"
  by (simp add: main_def Let_def split_def)

lemma main_radius:
  "TooniePixelRadius (main e) = fst (circles_loop e (circles (main e)) (0, input_blurred))"
  by (simp add: main_def Let_def split_def input_blurred_def)

lemma main_scale:
  "pixels_per_metric (main e) =
     div_float_int (fl e) (Toonie_RADIUS e) (TooniePixelRadius (main e))"
  by (simp add: main_def Let_def split_def)

lemma main_printed:
  "printed ''Radius in image (pixels) '' (trace (main e)) =
     Some (cout_int (TooniePixelRadius (main e)))"
  "printed ''Centimetres-Per-Pixel - '' (trace (main e)) =
     Some (cout_float (pixels_per_metric (main e)))"
  "printed ''Foot Length (pixels) - '' (trace (main e)) =
     Some (cout_int (height (footRect (main e))))"
  "printed ''Foot Length (cm) - '' (trace (main e)) =
     Some (cout_float (mul_int_float (fl e) (height (footRect (main e)))
       (pixels_per_metric (main e))))"
  "printed ''Foot Width (pixels) - '' (trace (main e)) =
     Some (cout_int (width (footRect (main e))))"
  "printed ''Foot Width(cm) - '' (trace (main e)) =
     Some (cout_float (mul_int_float (fl e) (width (footRect (main e)))
       (pixels_per_metric (main e))))"
  by (simp_all add: main_def Let_def split_def)

lemma main_last: "last (trace (main e)) = waitKey 0"
  by (simp add: main_def Let_def split_def)

lemma main_drawn:
  "drawn (bottomTestImage (main e)) =
     drawn (snd (circles_loop e (circles (main e)) (0, input_blurred)))
       @ [a_rectangle (tl (footRect (main e))) (br (footRect (main e))),
          a_text ''Detected Foot + Toonie Contours'']"
  by (simp add: main_def Let_def split_def input_blurred_def)

lemma drawn_input_blurred: "drawn input_blurred = []"
  by (simp add: input_blurred_def SkinMask_def Let_def)

subsection \<open>The two loops as scans\<close>

lemma sint_mult_in_range:
  fixes a b :: int32
  assumes "- (2 ^ 31) \<le> sint a * sint b" "sint a * sint b < 2 ^ 31"
  shows "sint (a * b) = sint a * sint b"
  using assms by (simp add: sint_word_ariths signed_take_bit_int_eq_self)

lemma area_less:
  assumes "no_overflow a" "no_overflow b"
  shows "(width a * height a <s width b * height b) = (area a < area b)"
proof -
  have "sint (width r * height r) = area r" if "no_overflow r" for r
    using that unfolding area_def no_overflow_def by (intro sint_mult_in_range) simp_all
  with assms show ?thesis by (simp add: word_sless_alt)
qed

lemma footRect_loop_fold:
  assumes "no_overflow fr" "list_all no_overflow (map (brect e) cs)"
  shows "footRect_loop e cs fr =
           fold (\<lambda>r b. if area b < area r then r else b) (map (brect e) cs) fr"
  using assms
proof (induction cs arbitrary: fr)
  case Nil
  show ?case by simp
next
  case (Cons c cs)
  have c: "no_overflow (brect e c)" and cs: "list_all no_overflow (map (brect e) cs)"
    using Cons.prems(2) by simp_all
  let ?fr = "if area fr < area (brect e c) then brect e c else fr"
  have step: "footRect_loop e (c # cs) fr = footRect_loop e cs ?fr"
    using area_less[OF Cons.prems(1) c] by (simp add: brect_def Let_def)
  have "no_overflow ?fr" using c Cons.prems(1) by simp
  from Cons.IH[OF this cs] show ?case
    unfolding step by simp
qed

lemma circles_loop_fst:
  "fst (circles_loop e vs (t, img)) =
     fold (\<lambda>r b. if sint b < sint r then r else b) (map (radius_of e) vs) t"
proof (induction vs arbitrary: t img)
  case Nil
  show ?case by simp
next
  case (Cons v vs)
  show ?case
    by (cases "Vec3i_of e v") (simp add: radius_of_def Let_def Cons.IH word_sless_alt)
qed

lemma circles_loop_drawn:
  "drawn (snd (circles_loop e vs (t, img))) =
     drawn img @ map (\<lambda>v. a_circle (center_of e v) (radius_of e v)) vs"
proof (induction vs arbitrary: t img)
  case Nil
  show ?case by simp
next
  case (Cons v vs)
  show ?case
    by (cases "Vec3i_of e v") (simp add: radius_of_def center_of_def Let_def Cons.IH)
qed

lemma no_overflow_default: "no_overflow Rect_default"
  by (simp add: no_overflow_def area_def Rect_default_def)

lemma area_default: "area Rect_default = 0"
  by (simp add: area_def Rect_default_def)

text \<open>The second loop on the integer radii it compares: when some radius is not
  negative, the result is the first largest of them.\<close>

lemma radius_of_eq: "radius_of e v = saturate_cast e (radius_f v)"
  by (cases v) (simp add: radius_of_def)

lemma radius_scan:
  assumes "\<exists>v \<in> set (circles (main e)). 0 \<le> sint (radius_of e v)"
  shows "(\<exists>i < length (circles (main e)).
            TooniePixelRadius (main e) = radius_of e (circles (main e) ! i)
            \<and> (\<forall>j < i. sint (radius_of e (circles (main e) ! j)) < sint (TooniePixelRadius (main e)))
            \<and> (\<forall>j < length (circles (main e)).
                  sint (radius_of e (circles (main e) ! j)) \<le> sint (TooniePixelRadius (main e))))
         \<and> (\<forall>e'. map (radius_of e') (circles (main e')) = map (radius_of e) (circles (main e))
                \<longrightarrow> TooniePixelRadius (main e') = TooniePixelRadius (main e))"
proof
  let ?vs = "circles (main e)"
  let ?rs = "map (radius_of e) ?vs"
  let ?f = "\<lambda>r b :: int32. if sint b < sint r then r else b"
  have eq: "TooniePixelRadius (main e) = fold ?f ?rs 0"
    by (simp add: main_radius circles_loop_fst)
  show "\<forall>e'. map (radius_of e') (circles (main e')) = ?rs
          \<longrightarrow> TooniePixelRadius (main e') = TooniePixelRadius (main e)"
    by (simp add: main_radius circles_loop_fst)
  show "\<exists>i < length ?vs. TooniePixelRadius (main e) = radius_of e (?vs ! i)
            \<and> (\<forall>j < i. sint (radius_of e (?vs ! j)) < sint (TooniePixelRadius (main e)))
            \<and> (\<forall>j < length ?vs. sint (radius_of e (?vs ! j)) \<le> sint (TooniePixelRadius (main e)))"
  proof (cases "\<forall>r \<in> set ?rs. sint r \<le> sint (0 :: int32)")
    case True
    from first_max_fold_none[OF this] eq have t: "TooniePixelRadius (main e) = 0" by simp
    have le0: "sint (radius_of e (?vs ! j)) \<le> 0" if "j < length ?vs" for j
      using True that by simp
    from assms obtain k where k: "k < length ?vs" "0 \<le> sint (radius_of e (?vs ! k))"
      by (auto simp: in_set_conv_nth)
    define P where "P n \<longleftrightarrow> n < length ?vs \<and> sint (radius_of e (?vs ! n)) = 0" for n
    have "P k" using k le0[of k] by (simp add: P_def)
    define i where "i = (LEAST n. P n)"
    have Pi: "P i" unfolding i_def using \<open>P k\<close> by (rule LeastI)
    have before: "\<not> P j" if "j < i" for j using that unfolding i_def by (rule not_less_Least)
    from Pi have il: "i < length ?vs" and "sint (radius_of e (?vs ! i)) = sint (0 :: int32)"
      by (simp_all add: P_def)
    from this(2) have "radius_of e (?vs ! i) = 0" by (rule signed_word_eqI)
    then have ti: "TooniePixelRadius (main e) = radius_of e (?vs ! i)"
      using t by simp
    have "sint (radius_of e (?vs ! j)) < sint (TooniePixelRadius (main e))" if "j < i" for j
    proof -
      from that il have "j < length ?vs" by simp
      with before[OF that] le0[of j] show ?thesis by (simp add: P_def t)
    qed
    moreover have "sint (radius_of e (?vs ! j)) \<le> sint (TooniePixelRadius (main e))"
      if "j < length ?vs" for j using le0[OF that] by (simp add: t)
    ultimately show ?thesis using il ti by blast
  next
    case False
    from first_max_fold_some[OF this]
    obtain i where i: "i < length ?rs" "fold ?f ?rs 0 = ?rs ! i"
        "\<forall>j < i. sint (?rs ! j) < sint (?rs ! i)"
        "\<forall>j < length ?rs. sint (?rs ! j) \<le> sint (?rs ! i)"
      by blast
    from i(1) have il: "i < length ?vs" by simp
    have t: "TooniePixelRadius (main e) = radius_of e (?vs ! i)" using eq i(2) il by simp
    have "\<forall>j < i. sint (radius_of e (?vs ! j)) < sint (TooniePixelRadius (main e))"
      using i(3) il t by auto
    moreover have "\<forall>j < length ?vs. sint (radius_of e (?vs ! j)) \<le> sint (TooniePixelRadius (main e))"
      using i(4) il t by auto
    ultimately show ?thesis using il t by blast
  qed
qed

subsection \<open>Rounding\<close>

lemma normal_bounds:
  "0 < normal_min" "normal_min \<le> 1 / 2 ^ 40" "2 ^ 40 \<le> normal_max"
  by (simp_all add: normal_min_def normal_max_def)

lemma rounding_zero: "rounding rnd u \<Longrightarrow> rnd 0 = 0"
  by (simp add: rounding_def)

lemma rounding_id: "0 \<le> u \<Longrightarrow> u \<le> 1 / 8 \<Longrightarrow> rounding (\<lambda>x. x) u"
  by (simp add: rounding_def)

lemma rounding_inexact: "rounding (\<lambda>x. x * (1 + 1 / 2 ^ 24)) (1 / 2 ^ 24)"
  by (simp add: rounding_def abs_mult algebra_simps)

lemma rounding_abs:
  assumes "rounding rnd u" "normal_min \<le> \<bar>x\<bar>" "\<bar>x\<bar> \<le> normal_max"
  shows "\<bar>rnd x - x\<bar> \<le> u * \<bar>x\<bar>" "(7 / 8) * \<bar>x\<bar> \<le> \<bar>rnd x\<bar>" "\<bar>rnd x\<bar> \<le> (9 / 8) * \<bar>x\<bar>"
proof -
  from assms have u: "0 \<le> u" "u \<le> 1 / 8" by (simp_all add: rounding_def)
  from assms show e: "\<bar>rnd x - x\<bar> \<le> u * \<bar>x\<bar>" by (simp add: rounding_def)
  have "u * \<bar>x\<bar> \<le> (1 / 8) * \<bar>x\<bar>" using u by (intro mult_right_mono) simp_all
  with e have "\<bar>rnd x - x\<bar> \<le> (1 / 8) * \<bar>x\<bar>" by linarith
  then show "(7 / 8) * \<bar>x\<bar> \<le> \<bar>rnd x\<bar>" "\<bar>rnd x\<bar> \<le> (9 / 8) * \<bar>x\<bar>" by linarith+
qed

lemma rounding_pos:
  assumes "rounding rnd u" "normal_min \<le> x" "x \<le> normal_max"
  shows "(1 - u) * x \<le> rnd x" "rnd x \<le> (1 + u) * x" "(7 / 8) * x \<le> rnd x"
    "rnd x \<le> (9 / 8) * x" "0 < rnd x"
proof -
  from assms have u: "0 \<le> u" "u \<le> 1 / 8" by (simp_all add: rounding_def)
  have x: "0 < x" using assms(2) normal_bounds(1) by linarith
  then have ax: "\<bar>x\<bar> = x" by simp
  have "\<bar>rnd x - x\<bar> \<le> u * \<bar>x\<bar>"
    by (rule rounding_abs(1)[OF assms(1)]) (simp_all add: ax assms)
  then have a: "\<bar>rnd x - x\<bar> \<le> u * x" by (simp only: ax)
  from a show lo: "(1 - u) * x \<le> rnd x" by (simp add: abs_le_iff algebra_simps)
  from a show hi: "rnd x \<le> (1 + u) * x" by (simp add: abs_le_iff algebra_simps)
  have "(7 / 8) * x \<le> (1 - u) * x" using u x by (intro mult_right_mono) simp_all
  with lo show l8: "(7 / 8) * x \<le> rnd x" by linarith
  have "(1 + u) * x \<le> (9 / 8) * x" using u x by (intro mult_right_mono) simp_all
  with hi show "rnd x \<le> (9 / 8) * x" by linarith
  from l8 x show "0 < rnd x" by linarith
qed

text \<open>A 32-bit integer is zero or in the normal range.\<close>

lemma sint32_normal:
  fixes i :: int32
  assumes "i \<noteq> 0"
  shows "normal_min \<le> \<bar>real_of_int (sint i)\<bar>" "\<bar>real_of_int (sint i)\<bar> \<le> 2 ^ 31"
    "\<bar>real_of_int (sint i)\<bar> \<le> normal_max" "1 \<le> \<bar>real_of_int (sint i)\<bar>"
proof -
  have "sint i \<noteq> 0" using assms by (simp add: signed_eq_0_iff)
  then have "1 \<le> \<bar>sint i\<bar>" by linarith
  then have "real_of_int 1 \<le> real_of_int \<bar>sint i\<bar>" by (simp only: of_int_le_iff)
  then show one: "1 \<le> \<bar>real_of_int (sint i)\<bar>" by (simp del: of_int_sint)
  have "(1 :: real) / 2 ^ 40 \<le> 1" by simp
  with one normal_bounds(2) show "normal_min \<le> \<bar>real_of_int (sint i)\<bar>" by linarith
  have "- (2 ^ 31) \<le> sint i" "sint i < 2 ^ 31"
    using sint_ge[of i] sint_lt[of i] by simp_all
  then have "\<bar>sint i\<bar> \<le> 2 ^ 31" by linarith
  then have "real_of_int \<bar>sint i\<bar> \<le> real_of_int (2 ^ 31)" by (simp only: of_int_le_iff)
  then show b: "\<bar>real_of_int (sint i)\<bar> \<le> 2 ^ 31" by (simp del: of_int_sint)
  have "(2 :: real) ^ 31 \<le> 2 ^ 40" by simp
  with b normal_bounds(3) show "\<bar>real_of_int (sint i)\<bar> \<le> normal_max" by linarith
qed

lemma sint_pos_range:
  fixes i :: int32
  assumes "0 < sint i"
  shows "1 \<le> real_of_int (sint i)" "real_of_int (sint i) \<le> 2 ^ 31"
proof -
  have "i \<noteq> 0" using assms by auto
  from sint32_normal(4)[OF this] sint32_normal(2)[OF this] assms
  show "1 \<le> real_of_int (sint i)" "real_of_int (sint i) \<le> 2 ^ 31"
    by (simp_all del: of_int_sint)
qed

lemma rounding_sint_eq_0_iff:
  fixes i :: int32
  assumes "rounding rnd u"
  shows "rnd (real_of_int (sint i)) = 0 \<longleftrightarrow> i = 0"
proof
  assume z: "rnd (real_of_int (sint i)) = 0"
  show "i = 0"
  proof (rule ccontr)
    assume n: "i \<noteq> 0"
    from rounding_abs(2)[OF assms sint32_normal(1)[OF n] sint32_normal(3)[OF n]] z
    have "(7 / 8) * \<bar>real_of_int (sint i)\<bar> \<le> 0" by (simp del: of_int_sint)
    with sint32_normal(4)[OF n] show False by linarith
  qed
next
  assume "i = 0"
  then show "rnd (real_of_int (sint i)) = 0" using rounding_zero[OF assms] by simp
qed

lemma Toonie_RADIUS_pos:
  assumes "rounding rnd u"
  shows "0 < rnd (1325 / 1000)"
proof (rule rounding_pos(5)[OF assms])
  have "(1 :: real) / 2 ^ 40 \<le> 1325 / 1000" "(1325 / 1000 :: real) \<le> 2 ^ 40" by simp_all
  with normal_bounds show "normal_min \<le> 1325 / 1000" "(1325 / 1000 :: real) \<le> normal_max"
    by linarith+
qed

text \<open>The rounded quotient of the rounded constant by a rounded positive integer: its
  error and its range.\<close>

lemma scale_error:
  assumes r: "rounding rnd u" and k: "1 \<le> k" "k \<le> 2" and R: "1 \<le> R" "R \<le> 2 ^ 31"
  shows "\<bar>rnd (rnd k / rnd R) * R - k\<bar> \<le> 4 * u * k"
    and "1 / 2 ^ 33 \<le> rnd (rnd k / rnd R)" and "rnd (rnd k / rnd R) \<le> 4"
proof -
  from r have u: "0 \<le> u" "u \<le> 1 / 8" by (simp_all add: rounding_def)
  have c: "(1 :: real) / 2 ^ 40 \<le> 1" "(2 :: real) \<le> 2 ^ 40" "(2 :: real) ^ 31 \<le> 2 ^ 40"
    by simp_all
  have kn: "normal_min \<le> k" "k \<le> normal_max" using k c normal_bounds by linarith+
  have Rn: "normal_min \<le> R" "R \<le> normal_max" using R c normal_bounds by linarith+
  have kpos: "0 < k" and Rpos: "0 < R" using k R by linarith+
  note kb = rounding_pos[OF r kn] and Rb = rounding_pos[OF r Rn]
  let ?q = "rnd k / rnd R"
  have q: "0 < ?q" using kb(5) Rb(5) by simp
  have q_lo8: "(7 / 8) / ((9 / 8) * 2 ^ 31) \<le> ?q"
  proof (rule frac_le)
    show "(7 / 8 :: real) \<le> rnd k" using kb(3) k by linarith
    have "(9 / 8) * R \<le> (9 / 8) * 2 ^ 31" using R by simp
    with Rb(4) show "rnd R \<le> (9 / 8) * 2 ^ 31" by linarith
  qed (use Rb(5) kb(5) in simp_all)
  have q_hi8: "?q \<le> (9 / 4) / (7 / 8)"
  proof (rule frac_le)
    show "rnd k \<le> 9 / 4" using kb(4) k by linarith
    show "(7 / 8 :: real) \<le> rnd R" using Rb(3) R by linarith
  qed (use kb(5) in simp_all)
  have qn: "normal_min \<le> ?q" "?q \<le> normal_max"
  proof -
    have "(1 :: real) / 2 ^ 40 \<le> (7 / 8) / ((9 / 8) * 2 ^ 31)" by simp
    with q_lo8 normal_bounds(2) show "normal_min \<le> ?q" by linarith
    have "(9 / 4) / (7 / 8) \<le> (2 :: real) ^ 40" by simp
    with q_hi8 normal_bounds(3) show "?q \<le> normal_max" by linarith
  qed
  note sb = rounding_pos[OF r qn]
  show "1 / 2 ^ 33 \<le> rnd ?q"
  proof -
    have "(1 :: real) / 2 ^ 33 \<le> (7 / 8) * ((7 / 8) / ((9 / 8) * 2 ^ 31))" by simp
    also have "\<dots> \<le> (7 / 8) * ?q" using q_lo8 by (intro mult_left_mono) simp_all
    also have "\<dots> \<le> rnd ?q" by (rule sb(3))
    finally show ?thesis .
  qed
  show "rnd ?q \<le> 4"
  proof -
    have "rnd ?q \<le> (9 / 8) * ?q" by (rule sb(4))
    also have "\<dots> \<le> (9 / 8) * ((9 / 4) / (7 / 8))" using q_hi8 by (intro mult_left_mono) simp_all
    also have "\<dots> \<le> 4" by simp
    finally show ?thesis .
  qed
  have r1: "0 < (1 - u) * R" using u Rpos by simp
  have q_hi: "?q \<le> ((1 + u) * k) / ((1 - u) * R)"
    using kb Rb r1 by (intro frac_le) simp_all
  have q_lo: "((1 - u) * k) / ((1 + u) * R) \<le> ?q"
    using kb Rb u kpos by (intro frac_le) simp_all
  have "rnd ?q * R \<le> (1 + u) * ?q * R" using mult_right_mono[OF sb(2), of R] Rpos by simp
  also have "\<dots> \<le> (1 + u) * (((1 + u) * k) / ((1 - u) * R)) * R"
    using q_hi u Rpos by (intro mult_right_mono mult_left_mono) simp_all
  also have "\<dots> = (1 + u) * (1 + u) * k / (1 - u)" using Rpos u by (simp add: field_simps)
  also have "\<dots> \<le> (1 + 4 * u) * k"
  proof -
    have "0 \<le> u * (1 - 5 * u)" using u by (intro mult_nonneg_nonneg) simp_all
    then have "(1 + u) * (1 + u) \<le> (1 + 4 * u) * (1 - u)" by (simp add: algebra_simps)
    then have "(1 + u) * (1 + u) * k \<le> (1 + 4 * u) * (1 - u) * k"
      using kpos by (intro mult_right_mono) simp_all
    then show ?thesis using u by (simp add: field_simps)
  qed
  finally have hi: "rnd ?q * R \<le> (1 + 4 * u) * k" .
  have "(1 - 4 * u) * k \<le> (1 - u) * (1 - u) * k / (1 + u)"
  proof -
    have "0 \<le> u * (1 + 5 * u)" using u by (intro mult_nonneg_nonneg) simp_all
    then have "(1 - 4 * u) * (1 + u) \<le> (1 - u) * (1 - u)" by (simp add: algebra_simps)
    then have "(1 - 4 * u) * (1 + u) * k \<le> (1 - u) * (1 - u) * k"
      using kpos by (intro mult_right_mono) simp_all
    then show ?thesis using u by (simp add: field_simps)
  qed
  also have "\<dots> = (1 - u) * (((1 - u) * k) / ((1 + u) * R)) * R"
  proof -
    have "0 < 1 + u" "0 < (1 + u) * R" using u Rpos by simp_all
    then show ?thesis using Rpos by (simp add: field_simps)
  qed
  also have "\<dots> \<le> (1 - u) * ?q * R"
    using q_lo u Rpos by (intro mult_right_mono mult_left_mono) simp_all
  also have "\<dots> \<le> rnd ?q * R" using mult_right_mono[OF sb(1), of R] Rpos by simp
  finally have lo: "(1 - 4 * u) * k \<le> rnd ?q * R" .
  from hi lo show "\<bar>rnd ?q * R - k\<bar> \<le> 4 * u * k"
    by (simp add: abs_le_iff algebra_simps)
qed

text \<open>The rounded product of a rounded 32-bit integer and a scale.\<close>

lemma product_error:
  fixes i :: int32
  assumes r: "rounding rnd u" and s: "1 / 2 ^ 33 \<le> s" "s \<le> 4"
  shows "\<bar>rnd (rnd (real_of_int (sint i)) * s) - real_of_int (sint i) * s\<bar>
           \<le> 3 * u * \<bar>real_of_int (sint i) * s\<bar>"
proof (cases "i = 0")
  case True
  then show ?thesis using rounding_zero[OF r] by simp
next
  case False
  define h where "h = real_of_int (sint i)"
  from r have u: "0 \<le> u" "u \<le> 1 / 8" by (simp_all add: rounding_def)
  have spos: "0 < s" using s(1) by (rule less_le_trans[rotated]) simp
  have hn: "normal_min \<le> \<bar>h\<bar>" "\<bar>h\<bar> \<le> 2 ^ 31" "\<bar>h\<bar> \<le> normal_max" "1 \<le> \<bar>h\<bar>"
    unfolding h_def by (rule sint32_normal[OF False])+
  note hb = rounding_abs[OF r hn(1) hn(3)]
  have a: "\<bar>rnd h - h\<bar> \<le> u * \<bar>h\<bar>" by (rule hb(1))
  have a': "\<bar>rnd h\<bar> \<le> (1 + u) * \<bar>h\<bar>" using a by (simp add: algebra_simps)
  have p_lo: "normal_min \<le> \<bar>rnd h * s\<bar>"
  proof -
    have "(1 :: real) / 2 ^ 40 \<le> (7 / 8) * (1 / 2 ^ 33)" by simp
    with normal_bounds(2) have "normal_min \<le> (7 / 8) * (1 / 2 ^ 33)" by linarith
    also have "\<dots> \<le> \<bar>rnd h\<bar> * s"
    proof (rule mult_mono)
      show "7 / 8 \<le> \<bar>rnd h\<bar>" using hb(2) hn(4) by linarith
    qed (use s in simp_all)
    finally show ?thesis using spos by (simp add: abs_mult)
  qed
  have p_hi: "\<bar>rnd h * s\<bar> \<le> normal_max"
  proof -
    have "\<bar>rnd h\<bar> * s \<le> ((9 / 8) * 2 ^ 31) * 4"
    proof (rule mult_mono)
      show "\<bar>rnd h\<bar> \<le> (9 / 8) * 2 ^ 31" using hb(3) hn(2) by linarith
    qed (use s spos in simp_all)
    also have "\<dots> \<le> (2 :: real) ^ 40" by simp
    also have "\<dots> \<le> normal_max" by (rule normal_bounds(3))
    finally show ?thesis using spos by (simp add: abs_mult)
  qed
  have e: "\<bar>rnd (rnd h * s) - rnd h * s\<bar> \<le> u * \<bar>rnd h * s\<bar>"
    by (rule rounding_abs(1)[OF r p_lo p_hi])
  have "\<bar>rnd (rnd h * s) - h * s\<bar> \<le> \<bar>rnd (rnd h * s) - rnd h * s\<bar> + \<bar>rnd h * s - h * s\<bar>"
    by linarith
  also have "\<bar>rnd h * s - h * s\<bar> = \<bar>rnd h - h\<bar> * \<bar>s\<bar>"
    by (simp add: abs_mult[symmetric] algebra_simps)
  also have "\<bar>rnd (rnd h * s) - rnd h * s\<bar> + \<bar>rnd h - h\<bar> * \<bar>s\<bar>
       \<le> u * \<bar>rnd h * s\<bar> + (u * \<bar>h\<bar>) * \<bar>s\<bar>"
    using e a by (intro add_mono mult_right_mono) simp_all
  also have "u * \<bar>rnd h * s\<bar> \<le> u * ((1 + u) * \<bar>h\<bar> * \<bar>s\<bar>)"
    using a' u by (simp add: abs_mult mult_left_mono mult_right_mono)
  also have "u * ((1 + u) * \<bar>h\<bar> * \<bar>s\<bar>) + (u * \<bar>h\<bar>) * \<bar>s\<bar> = (2 * u + u * u) * \<bar>h * s\<bar>"
    by (simp add: abs_mult algebra_simps)
  also have "\<dots> \<le> 3 * u * \<bar>h * s\<bar>"
  proof -
    have "u * u \<le> 1 * u" using u by (intro mult_right_mono) simp_all
    then show ?thesis by (intro mult_right_mono) simp_all
  qed
  finally show ?thesis unfolding h_def by simp
qed

lemma scale_finite:
  assumes r: "rounding (fl e) u" and R: "0 < sint (TooniePixelRadius (main e))"
  shows "pixels_per_metric (main e) =
           Fin (fl e (fl e (1325 / 1000) / fl e (real_of_int (sint (TooniePixelRadius (main e))))))"
proof -
  have "fl e (real_of_int (sint (TooniePixelRadius (main e)))) \<noteq> 0"
    using rounding_sint_eq_0_iff[OF r, of "TooniePixelRadius (main e)"] R by auto
  then show ?thesis
    by (simp add: main_scale div_float_int_def Toonie_RADIUS_def Let_def del: of_int_sint)
qed

text \<open>What is printed when the coin pixel radius is \<open>R > 0\<close>.\<close>

lemma printed_formulas:
  assumes "rounding (fl e) u"
    and "TooniePixelRadius (main e) = R" and "0 < sint R"
    and "width (footRect (main e)) = W" and "height (footRect (main e)) = H"
  shows "\<exists>scale len wid.
           printed ''Centimetres-Per-Pixel - '' (trace (main e)) = Some (cout_float (Fin scale))
         \<and> \<bar>scale - (1325 / 1000) / real_of_int (sint R)\<bar>
             \<le> 4 * u * ((1325 / 1000) / real_of_int (sint R))
         \<and> printed ''Foot Length (cm) - '' (trace (main e)) = Some (cout_float (Fin len))
         \<and> \<bar>len - real_of_int (sint H) * scale\<bar> \<le> 3 * u * \<bar>real_of_int (sint H) * scale\<bar>
         \<and> printed ''Foot Width(cm) - '' (trace (main e)) = Some (cout_float (Fin wid))
         \<and> \<bar>wid - real_of_int (sint W) * scale\<bar> \<le> 3 * u * \<bar>real_of_int (sint W) * scale\<bar>"
proof -
  let ?R = "real_of_int (sint R)"
  let ?k = "1325 / 1000 :: real"
  define s where "s = fl e (fl e ?k / fl e ?R)"
  have Rpos: "0 < ?R" using assms(3) by (simp del: of_int_sint)
  have Rr: "1 \<le> ?R" "?R \<le> 2 ^ 31" using sint_pos_range[OF assms(3)] by simp_all
  have ppm: "pixels_per_metric (main e) = Fin s"
    using scale_finite[OF assms(1)] assms(2,3) by (simp add: s_def)
  note se = scale_error[OF assms(1) _ _ Rr, of ?k, folded s_def]
  have "\<bar>s * ?R - ?k\<bar> \<le> 4 * u * ?k" by (rule se(1)) simp_all
  have sr: "1 / 2 ^ 33 \<le> s" "s \<le> 4" by (rule se(2), simp_all) (rule se(3), simp_all)
  from \<open>\<bar>s * ?R - ?k\<bar> \<le> 4 * u * ?k\<close>
  have "\<bar>s * ?R - ?k\<bar> / ?R \<le> 4 * u * ?k / ?R"
    by (rule divide_right_mono) (rule less_imp_le[OF Rpos])
  moreover have "\<bar>s * ?R - ?k\<bar> / ?R = \<bar>s - ?k / ?R\<bar>"
  proof -
    have "s - ?k / ?R = (s * ?R - ?k) / ?R" using Rpos by (simp add: field_simps)
    then show ?thesis using Rpos by simp
  qed
  ultimately have sc: "\<bar>s - ?k / ?R\<bar> \<le> 4 * u * (?k / ?R)" by simp
  define l where "l = fl e (fl e (real_of_int (sint H)) * s)"
  define w where "w = fl e (fl e (real_of_int (sint W)) * s)"
  have pl: "printed ''Foot Length (cm) - '' (trace (main e)) = Some (cout_float (Fin l))"
    by (simp add: main_printed ppm assms(5) mul_int_float_def l_def)
  have pw: "printed ''Foot Width(cm) - '' (trace (main e)) = Some (cout_float (Fin w))"
    by (simp add: main_printed ppm assms(4) mul_int_float_def w_def)
  have ps: "printed ''Centimetres-Per-Pixel - '' (trace (main e)) = Some (cout_float (Fin s))"
    by (simp add: main_printed ppm)
  have el: "\<bar>l - real_of_int (sint H) * s\<bar> \<le> 3 * u * \<bar>real_of_int (sint H) * s\<bar>"
    unfolding l_def by (rule product_error[OF assms(1) sr])
  have ew: "\<bar>w - real_of_int (sint W) * s\<bar> \<le> 3 * u * \<bar>real_of_int (sint W) * s\<bar>"
    unfolding w_def by (rule product_error[OF assms(1) sr])
  from ps sc pl el pw ew show ?thesis by blast
qed

subsection \<open>The library's conversion\<close>

lemma cvRound_sint:
  assumes "0 \<le> v" "v \<le> 2 ^ 30"
  shows "sint (cvRound v) =
           (if v - of_int \<lfloor>v\<rfloor> < 1 / 2 then \<lfloor>v\<rfloor>
            else if 1 / 2 < v - of_int \<lfloor>v\<rfloor> then \<lfloor>v\<rfloor> + 1
            else if even \<lfloor>v\<rfloor> then \<lfloor>v\<rfloor> else \<lfloor>v\<rfloor> + 1)"
    (is "_ = ?n")
proof -
  have c: "cvRound v = word_of_int ?n" by (simp add: cvRound_def Let_def)
  have f0: "0 \<le> \<lfloor>v\<rfloor>" using assms(1) by simp
  have "\<lfloor>v\<rfloor> \<le> 2 ^ 30" using assms(2) by (simp add: floor_le_iff)
  with f0 have nr: "0 \<le> ?n" "?n < 2 ^ 31" by auto
  have "sint (word_of_int ?n :: int32) = ?n"
    using nr by (simp only: sint_sbintrunc') (simp add: signed_take_bit_int_eq_self)
  then show ?thesis by (simp only: c)
qed

lemma cvRound_nearest:
  assumes "0 \<le> v" "v \<le> 2 ^ 30"
  shows "\<bar>real_of_int (sint (cvRound v)) - v\<bar> \<le> 1 / 2"
proof -
  define f where "f = \<lfloor>v\<rfloor>"
  define n where "n = (if v - of_int f < 1 / 2 then f else if 1 / 2 < v - of_int f then f + 1
                      else if even f then f else f + 1)"
  have c: "cvRound v = word_of_int n" by (simp add: cvRound_def Let_def n_def f_def)
  have f0: "0 \<le> f" using assms(1) by (simp add: f_def)
  have "f \<le> 2 ^ 30" using assms(2) unfolding f_def by (simp add: floor_le_iff)
  with f0 have nr: "0 \<le> n" "n < 2 ^ 31" by (auto simp: n_def)
  have fv: "of_int f \<le> v" "v < of_int f + 1" unfolding f_def by linarith+
  have "sint (word_of_int n :: int32) = n"
    using nr by (simp add: sint_sbintrunc' signed_take_bit_int_eq_self)
  then have "real_of_int (sint (cvRound v)) = of_int n" by (simp only: c)
  moreover have "\<bar>real_of_int n - v\<bar> \<le> 1 / 2" using fv by (auto simp: n_def)
  ultimately show ?thesis by (simp del: of_int_sint)
qed

lemma cvRound_mono:
  assumes "0 \<le> a" "a \<le> b" "b \<le> 2 ^ 30"
  shows "sint (cvRound a) \<le> sint (cvRound b)"
proof -
  have ra: "0 \<le> a" "a \<le> 2 ^ 30" and rb: "0 \<le> b" "b \<le> 2 ^ 30" using assms by linarith+
  have fl: "\<lfloor>a\<rfloor> \<le> \<lfloor>b\<rfloor>" using assms(2) by (rule floor_mono)
  show ?thesis
  proof (cases "\<lfloor>a\<rfloor> = \<lfloor>b\<rfloor>")
    case True
    then have "a - of_int \<lfloor>a\<rfloor> \<le> b - of_int \<lfloor>b\<rfloor>" using assms(2) by simp
    then show ?thesis unfolding cvRound_sint[OF ra] cvRound_sint[OF rb] using True by auto
  next
    case False
    with fl have "\<lfloor>a\<rfloor> + 1 \<le> \<lfloor>b\<rfloor>" by linarith
    then show ?thesis unfolding cvRound_sint[OF ra] cvRound_sint[OF rb] by auto
  qed
qed

subsection \<open>The example libraries\<close>

lemma lib_circles: "circles (main (lib cs vs)) = vs"
  by (simp add: main_circles lib_def)

lemma lib_contours: "contours (main (lib cs vs)) = cs"
  by (simp add: main_def lib_def Let_def split_def)

lemma lib_radius_of: "radius_of (lib cs vs) (Vec3f a b r) = cvRound r"
  by (simp add: radius_of_def lib_def)

lemma lib_brect: "brect (lib cs vs) c = bbox c"
  by (simp add: brect_def lib_def)

lemma lib_fl: "fl (lib cs vs) = (\<lambda>x. x)"
  by (simp add: lib_def)

lemma lib_saturate_cast: "saturate_cast (lib cs vs) = cvRound"
  by (simp add: lib_def)

lemma demo_radius: "TooniePixelRadius (main demo) = 26"
  unfolding main_radius circles_loop_fst unfolding demo_def lib_circles
  by (simp add: lib_radius_of cvRound_def Let_def)

lemma demo_footRect:
  "footRect (main demo) = \<lparr>rect_x = 5, rect_y = 6, width = 30, height = 80\<rparr>"
  unfolding main_footRect unfolding demo_def lib_contours
  by (simp add: lib_def bbox_def Rect_default_def word_sless_alt)

lemma demo_inexact_radius: "TooniePixelRadius (main demo_inexact) = 26"
  unfolding main_radius circles_loop_fst
  by (simp add: main_circles demo_inexact_def demo_def lib_def radius_of_def cvRound_def Let_def)

section \<open>The claims\<close>

text \<open>
  Claim C1, as amended. In a run where the circle transform returns a circle of radius
  \<open>r\<close> as the largest circle, \<open>R\<close> is \<open>r\<close> converted to an integer as the code does before
  it compares and divides (the nearest integer, within one half of \<open>r\<close>) with \<open>R > 0\<close>, and
  the selected rectangle has pixel width \<open>W\<close> and height \<open>H\<close>: the coin pixel radius is
  \<open>R\<close>, and the program prints a finite scale equal to 1.325 / R, a foot length equal to
  H times that scale and a foot width equal to W times that scale, each within
  floating-point tolerance: a relative error of at most \<open>4 u\<close> for the scale (three
  roundings) and \<open>3 u\<close> for each product (two roundings), where \<open>u\<close> bounds the relative
  error of one rounding (\<open>2\<^sup>-\<^sup>2\<^sup>4\<close> for 32-bit floats).
\<close>

theorem report_formulas:
  assumes "rounding (fl e) u" and "saturate_cast e = cvRound"
    and "v \<in> set (circles (main e))"
    and "list_all (\<lambda>w. 0 \<le> radius_f w \<and> radius_f w \<le> radius_f v) (circles (main e))"
    and "radius_f v \<le> 2 ^ 30"
    and "cvRound (radius_f v) = R" and "0 < sint R"
    and "width (footRect (main e)) = W" and "height (footRect (main e)) = H"
  shows "TooniePixelRadius (main e) = R
       \<and> \<bar>real_of_int (sint R) - radius_f v\<bar> \<le> 1 / 2
       \<and> (\<exists>scale len wid.
           printed ''Centimetres-Per-Pixel - '' (trace (main e)) = Some (cout_float (Fin scale))
         \<and> \<bar>scale - (1325 / 1000) / real_of_int (sint R)\<bar>
             \<le> 4 * u * ((1325 / 1000) / real_of_int (sint R))
         \<and> printed ''Foot Length (cm) - '' (trace (main e)) = Some (cout_float (Fin len))
         \<and> \<bar>len - real_of_int (sint H) * scale\<bar> \<le> 3 * u * \<bar>real_of_int (sint H) * scale\<bar>
         \<and> printed ''Foot Width(cm) - '' (trace (main e)) = Some (cout_float (Fin wid))
         \<and> \<bar>wid - real_of_int (sint W) * scale\<bar> \<le> 3 * u * \<bar>real_of_int (sint W) * scale\<bar>)"
proof -
  let ?cs = "circles (main e)"
  have rng: "0 \<le> radius_f w" "radius_f w \<le> radius_f v" if "w \<in> set ?cs" for w
    using assms(4) that by (simp_all add: list_all_iff)
  have r: "radius_of e w = cvRound (radius_f w)" for w
    by (simp add: radius_of_eq assms(2))
  have vR: "radius_of e v = R" by (simp add: r assms(6))
  have "\<exists>w \<in> set ?cs. 0 \<le> sint (radius_of e w)"
    using assms(3,7) vR by (intro bexI[of _ v]) simp_all
  from radius_scan[OF this] obtain i where
    i: "i < length ?cs" "TooniePixelRadius (main e) = radius_of e (?cs ! i)"
       "\<forall>j < length ?cs. sint (radius_of e (?cs ! j)) \<le> sint (TooniePixelRadius (main e))"
    by blast
  from assms(3) obtain k where k: "k < length ?cs" "?cs ! k = v"
    by (auto simp: in_set_conv_nth)
  from i(3) k have lo: "sint R \<le> sint (TooniePixelRadius (main e))" using vR by auto
  have mem: "?cs ! i \<in> set ?cs" using i(1) by simp
  have "sint (cvRound (radius_f (?cs ! i))) \<le> sint (cvRound (radius_f v))"
    by (rule cvRound_mono[OF rng(1)[OF mem] rng(2)[OF mem] assms(5)])
  then have hi: "sint (TooniePixelRadius (main e)) \<le> sint R"
    by (simp add: i(2) r assms(6))
  from lo hi have "sint (TooniePixelRadius (main e)) = sint R" by simp
  then have t: "TooniePixelRadius (main e) = R" by (rule signed_word_eqI)
  have near: "\<bar>real_of_int (sint R) - radius_f v\<bar> \<le> 1 / 2"
    unfolding assms(6)[symmetric]
    by (rule cvRound_nearest[OF rng(1)[OF assms(3)] assms(5)])
  from t near printed_formulas[OF assms(1) t assms(7,8,9)] show ?thesis by blast
qed

text \<open>With the demo library (largest radius 26.5, converted to 26, rectangle 30 by 80)
  and exact arithmetic the tolerance is zero: the scale is 1.325 / 26 and the length is
  80 times it.\<close>

theorem report_formulas_witness:
  "rounding (fl demo) 0 \<and> saturate_cast demo = cvRound
   \<and> Vec3f 300 200 (53 / 2) \<in> set (circles (main demo))
   \<and> list_all (\<lambda>w. 0 \<le> radius_f w \<and> radius_f w \<le> radius_f (Vec3f 300 200 (53 / 2)))
        (circles (main demo))
   \<and> radius_f (Vec3f 300 200 (53 / 2)) \<le> 2 ^ 30
   \<and> cvRound (radius_f (Vec3f 300 200 (53 / 2))) = 26 \<and> 0 < sint (26 :: int32)
   \<and> width (footRect (main demo)) = 30 \<and> height (footRect (main demo)) = 80
   \<and> TooniePixelRadius (main demo) = 26
   \<and> printed ''Centimetres-Per-Pixel - '' (trace (main demo)) = Some (cout_float (Fin (53 / 1040)))
   \<and> printed ''Foot Length (cm) - '' (trace (main demo)) = Some (cout_float (Fin (53 / 13)))
   \<and> printed ''Foot Width(cm) - '' (trace (main demo)) = Some (cout_float (Fin (159 / 104)))"
proof -
  let ?v = "Vec3f 300 200 (53 / 2)"
  have cs: "circles (main demo) = [?v, Vec3f 20 30 12]" by (simp add: demo_def lib_circles)
  have h1: "rounding (fl demo) 0" by (simp add: demo_def lib_fl rounding_id)
  have h2: "saturate_cast demo = cvRound" by (simp add: demo_def lib_saturate_cast)
  have h3: "?v \<in> set (circles (main demo))" by (simp add: cs)
  have h4: "list_all (\<lambda>w. 0 \<le> radius_f w \<and> radius_f w \<le> radius_f ?v) (circles (main demo))"
    by (simp add: cs)
  have h5: "radius_f ?v \<le> 2 ^ 30" by simp
  have h6: "cvRound (radius_f ?v) = 26" by (simp add: cvRound_def Let_def)
  have h7: "0 < sint (26 :: int32)" by simp
  have h8: "width (footRect (main demo)) = 30" by (simp add: demo_footRect)
  have h9: "height (footRect (main demo)) = 80" by (simp add: demo_footRect)
  from report_formulas[OF h1 h2 h3 h4 h5 h6 h7 h8 h9] obtain scale len wid where
    t: "TooniePixelRadius (main demo) = 26" and
    r: "printed ''Centimetres-Per-Pixel - '' (trace (main demo)) = Some (cout_float (Fin scale))"
       "\<bar>scale - (1325 / 1000) / real_of_int (sint (26 :: int32))\<bar>
          \<le> 4 * 0 * ((1325 / 1000) / real_of_int (sint (26 :: int32)))"
       "printed ''Foot Length (cm) - '' (trace (main demo)) = Some (cout_float (Fin len))"
       "\<bar>len - real_of_int (sint (80 :: int32)) * scale\<bar>
          \<le> 3 * 0 * \<bar>real_of_int (sint (80 :: int32)) * scale\<bar>"
       "printed ''Foot Width(cm) - '' (trace (main demo)) = Some (cout_float (Fin wid))"
       "\<bar>wid - real_of_int (sint (30 :: int32)) * scale\<bar>
          \<le> 3 * 0 * \<bar>real_of_int (sint (30 :: int32)) * scale\<bar>"
    by blast
  from r(2) have s: "scale = 53 / 1040" by simp
  from r(4) s have l: "len = 53 / 13" by simp
  from r(6) s have w: "wid = 159 / 104" by simp
  from h1 h2 h3 h4 h5 h6 h7 h8 h9 t r(1,3,5) s l w show ?thesis by simp
qed

text \<open>As stated, with the scale equal to 1.325 divided by the radius the transform
  returns, the claim fails: in the demo that radius is 26.5, the quotient would be 0.05,
  and the printed scale 1.325 / 26 is further from it than any rounding allows.\<close>

theorem scale_not_from_detected_radius:
  "circles (main demo) = [Vec3f 300 200 (53 / 2), Vec3f 20 30 12]
   \<and> rounding (fl demo) (1 / 2 ^ 24)
   \<and> printed ''Centimetres-Per-Pixel - '' (trace (main demo)) = Some (cout_float (Fin (53 / 1040)))
   \<and> (1325 / 1000) / (53 / 2) = (1 / 20 :: real)
   \<and> 4 * (1 / 2 ^ 24) * (1 / 20) < \<bar>53 / 1040 - 1 / 20 :: real\<bar>"
proof -
  have cs: "circles (main demo) = [Vec3f 300 200 (53 / 2), Vec3f 20 30 12]"
    by (simp add: demo_def lib_circles)
  have h1: "rounding (fl demo) (1 / 2 ^ 24)" by (simp add: demo_def lib_fl rounding_id)
  have p: "pixels_per_metric (main demo) = Fin (53 / 1040)"
    unfolding main_scale demo_radius
    by (simp add: div_float_int_def Toonie_RADIUS_def demo_def lib_fl)
  have "printed ''Centimetres-Per-Pixel - '' (trace (main demo)) = Some (cout_float (Fin (53 / 1040)))"
    by (simp only: main_printed p)
  with cs h1 show ?thesis by simp
qed

text \<open>
  Claim C2. When some contour has a bounding rectangle of positive area (no 32-bit
  product overflowing), the selected foot rectangle is the bounding rectangle of the
  approximating polygon of a contour, its area is strictly greater than that of every
  rectangle earlier in the scan and not smaller than that of any rectangle of the scan:
  it is the first rectangle of largest area.
\<close>

theorem footRect_first_largest:
  assumes "list_all no_overflow (map (brect e) (contours (main e)))"
    and "\<exists>c \<in> set (contours (main e)). 0 < area (brect e c)"
  shows "\<exists>i < length (contours (main e)).
           footRect (main e) = brect e (contours (main e) ! i)
           \<and> (\<forall>j < i. area (brect e (contours (main e) ! j)) < area (footRect (main e)))
           \<and> (\<forall>j < length (contours (main e)).
                 area (brect e (contours (main e) ! j)) \<le> area (footRect (main e)))"
proof -
  let ?cs = "contours (main e)"
  let ?rs = "map (brect e) ?cs"
  have eq: "footRect (main e) = fold (\<lambda>r b. if area b < area r then r else b) ?rs Rect_default"
    unfolding main_footRect by (rule footRect_loop_fold[OF no_overflow_default assms(1)])
  have "\<not> (\<forall>r \<in> set ?rs. area r \<le> area Rect_default)"
  proof -
    from assms(2) obtain c where "c \<in> set ?cs" "0 < area (brect e c)" by blast
    then have "brect e c \<in> set ?rs" "\<not> area (brect e c) \<le> area Rect_default"
      by (simp_all add: area_default)
    then show ?thesis by blast
  qed
  from first_max_fold_some[OF this]
  obtain i where i: "i < length ?rs"
      "fold (\<lambda>r b. if area b < area r then r else b) ?rs Rect_default = ?rs ! i"
      "\<forall>j < i. area (?rs ! j) < area (?rs ! i)"
      "\<forall>j < length ?rs. area (?rs ! j) \<le> area (?rs ! i)"
    by blast
  from i(1) have il: "i < length ?cs" by simp
  have fr: "footRect (main e) = brect e (?cs ! i)" using eq i(2) il by simp
  have "\<forall>j < i. area (brect e (?cs ! j)) < area (footRect (main e))"
    using i(3) il fr by auto
  moreover have "\<forall>j < length ?cs. area (brect e (?cs ! j)) \<le> area (footRect (main e))"
    using i(4) il fr by auto
  ultimately show ?thesis using il fr by blast
qed

text \<open>In the demo the second and third rectangles tie at area 2400; the second wins.\<close>

theorem footRect_first_largest_witness:
  "list_all no_overflow (map (brect demo) (contours (main demo)))
   \<and> (\<exists>c \<in> set (contours (main demo)). 0 < area (brect demo c))
   \<and> (\<exists>i < length (contours (main demo)).
           footRect (main demo) = brect demo (contours (main demo) ! i)
           \<and> (\<forall>j < i. area (brect demo (contours (main demo) ! j)) < area (footRect (main demo)))
           \<and> (\<forall>j < length (contours (main demo)).
                 area (brect demo (contours (main demo) ! j)) \<le> area (footRect (main demo))))
   \<and> footRect (main demo) = \<lparr>rect_x = 5, rect_y = 6, width = 30, height = 80\<rparr>"
proof -
  have h1: "list_all no_overflow (map (brect demo) (contours (main demo)))"
    unfolding demo_def lib_contours lib_brect
    by (simp add: bbox_def no_overflow_def area_def)
  have h2: "\<exists>c \<in> set (contours (main demo)). 0 < area (brect demo c)"
    unfolding demo_def lib_contours lib_brect
    by (simp add: bbox_def area_def)
  have v: "footRect (main demo) = \<lparr>rect_x = 5, rect_y = 6, width = 30, height = 80\<rparr>"
    unfolding main_footRect unfolding demo_def lib_contours
    by (simp add: lib_def bbox_def Rect_default_def word_sless_alt)
  from footRect_first_largest[OF h1 h2] h1 h2 v show ?thesis by blast
qed

text \<open>
  Claim C3, as amended. When some detected circle has a non-negative radius after the
  conversion to an integer that the code applies to each circle, the coin pixel radius is
  the converted radius of a detected circle, no smaller than the converted radius of any
  detected circle, and strictly larger than every converted radius before the first
  circle that has it: the first largest converted radius. It depends on the radii alone:
  a run with the same conversion whose circles have the same radii in the same order,
  wherever their centres are, has the same coin pixel radius.
\<close>

theorem TooniePixelRadius_first_largest:
  assumes "\<exists>v \<in> set (circles (main e)). 0 \<le> sint (saturate_cast e (radius_f v))"
  shows "(\<exists>i < length (circles (main e)).
            TooniePixelRadius (main e) = saturate_cast e (radius_f (circles (main e) ! i))
            \<and> (\<forall>j < i. sint (saturate_cast e (radius_f (circles (main e) ! j)))
                          < sint (TooniePixelRadius (main e)))
            \<and> (\<forall>j < length (circles (main e)).
                  sint (saturate_cast e (radius_f (circles (main e) ! j)))
                    \<le> sint (TooniePixelRadius (main e))))
         \<and> (\<forall>e'. saturate_cast e' = saturate_cast e
                  \<and> map radius_f (circles (main e')) = map radius_f (circles (main e))
                \<longrightarrow> TooniePixelRadius (main e') = TooniePixelRadius (main e))"
proof
  have "\<exists>v \<in> set (circles (main e)). 0 \<le> sint (radius_of e v)"
    using assms by (simp only: radius_of_eq)
  note rs = radius_scan[OF this, unfolded radius_of_eq]
  show "\<exists>i < length (circles (main e)).
            TooniePixelRadius (main e) = saturate_cast e (radius_f (circles (main e) ! i))
            \<and> (\<forall>j < i. sint (saturate_cast e (radius_f (circles (main e) ! j)))
                          < sint (TooniePixelRadius (main e)))
            \<and> (\<forall>j < length (circles (main e)).
                  sint (saturate_cast e (radius_f (circles (main e) ! j)))
                    \<le> sint (TooniePixelRadius (main e)))"
    by (rule conjunct1[OF rs])
  have m: "map (radius_of x) vs = map (saturate_cast x) (map radius_f vs)" for x vs
    by (simp add: radius_of_eq)
  show "\<forall>e'. saturate_cast e' = saturate_cast e
                  \<and> map radius_f (circles (main e')) = map radius_f (circles (main e))
                \<longrightarrow> TooniePixelRadius (main e') = TooniePixelRadius (main e)"
    by (simp add: main_radius circles_loop_fst m)
qed

text \<open>In the demo the radii 26.5 and 12 convert to 26 and 12, and 26 is selected.\<close>

theorem TooniePixelRadius_first_largest_witness:
  "(\<exists>v \<in> set (circles (main demo)). 0 \<le> sint (saturate_cast demo (radius_f v)))
   \<and> (\<exists>i < length (circles (main demo)).
            TooniePixelRadius (main demo) = saturate_cast demo (radius_f (circles (main demo) ! i))
            \<and> (\<forall>j < i. sint (saturate_cast demo (radius_f (circles (main demo) ! j)))
                          < sint (TooniePixelRadius (main demo)))
            \<and> (\<forall>j < length (circles (main demo)).
                  sint (saturate_cast demo (radius_f (circles (main demo) ! j)))
                    \<le> sint (TooniePixelRadius (main demo))))
   \<and> TooniePixelRadius (main demo) = 26
   \<and> saturate_cast demo (53 / 2) = 26 \<and> saturate_cast demo 12 = 12
   \<and> TooniePixelRadius (main demo_moved) = TooniePixelRadius (main demo)"
proof -
  have c: "saturate_cast demo (53 / 2) = 26" "saturate_cast demo 12 = 12"
    by (simp_all add: demo_def lib_saturate_cast cvRound_def Let_def)
  have h: "\<exists>v \<in> set (circles (main demo)). 0 \<le> sint (saturate_cast demo (radius_f v))"
    unfolding demo_def lib_circles lib_saturate_cast by (simp add: cvRound_def Let_def)
  have m: "saturate_cast demo_moved = saturate_cast demo
           \<and> map radius_f (circles (main demo_moved)) = map radius_f (circles (main demo))"
    unfolding demo_def demo_moved_def lib_circles lib_saturate_cast by simp
  from TooniePixelRadius_first_largest[OF h] obtain i where
    i: "i < length (circles (main demo))"
       "TooniePixelRadius (main demo) = saturate_cast demo (radius_f (circles (main demo) ! i))"
       "\<forall>j < length (circles (main demo)).
           sint (saturate_cast demo (radius_f (circles (main demo) ! j)))
             \<le> sint (TooniePixelRadius (main demo))"
    by blast
  have cs: "circles (main demo) = [Vec3f 300 200 (53 / 2), Vec3f 20 30 12]"
    by (simp add: demo_def lib_circles)
  from i(3) have "sint (saturate_cast demo (53 / 2)) \<le> sint (TooniePixelRadius (main demo))"
    unfolding cs by auto
  moreover from i(1,2) have "TooniePixelRadius (main demo) = saturate_cast demo (53 / 2)
      \<or> TooniePixelRadius (main demo) = saturate_cast demo 12"
    unfolding cs by (auto simp: less_Suc_eq)
  ultimately have t: "TooniePixelRadius (main demo) = 26" using c by auto
  from TooniePixelRadius_first_largest[OF h] m h t c show ?thesis by blast
qed

text \<open>As stated, with the coin pixel radius equal to the largest radius detected, the
  claim fails: in the demo the largest detected radius is 26.5 and the coin pixel radius
  is 26.\<close>

theorem TooniePixelRadius_not_largest_detected:
  "circles (main demo) = [Vec3f 300 200 (53 / 2), Vec3f 20 30 12]
   \<and> Max (radius_f ` set (circles (main demo))) = 53 / 2
   \<and> real_of_int (sint (TooniePixelRadius (main demo))) = 26"
proof -
  have cs: "circles (main demo) = [Vec3f 300 200 (53 / 2), Vec3f 20 30 12]"
    by (simp add: demo_def lib_circles)
  have "Max (radius_f ` set (circles (main demo))) = 53 / 2"
    unfolding cs by simp
  moreover have "real_of_int (sint (TooniePixelRadius (main demo))) = 26"
    by (simp add: demo_radius)
  ultimately show ?thesis using cs by simp
qed

text \<open>
  Claim C4. When the circle transform returns no circle, the coin pixel radius keeps its
  initial value zero, the scale is the known radius divided by zero, which is positive
  infinity, and that scale is printed; the run goes on to its last statement.
\<close>

theorem no_circles_infinite_scale:
  assumes "rounding (fl e) u" and "circles (main e) = []"
  shows "TooniePixelRadius (main e) = 0
       \<and> pixels_per_metric (main e) = PInf
       \<and> printed ''Radius in image (pixels) '' (trace (main e)) = Some (cout_int 0)
       \<and> printed ''Centimetres-Per-Pixel - '' (trace (main e)) = Some (cout_float PInf)
       \<and> last (trace (main e)) = waitKey 0"
proof -
  have t: "TooniePixelRadius (main e) = 0" by (simp add: main_radius assms(2))
  have k: "0 < fl e (1325 / 1000)" by (rule Toonie_RADIUS_pos[OF assms(1)])
  have z: "fl e 0 = 0" by (rule rounding_zero[OF assms(1)])
  have p: "pixels_per_metric (main e) = PInf"
    using k by (simp add: main_scale t div_float_int_def Toonie_RADIUS_def z)
  show ?thesis by (simp add: main_printed main_last t p)
qed

theorem no_circles_infinite_scale_witness:
  "rounding (fl no_circles) (1 / 2 ^ 24) \<and> circles (main no_circles) = []
   \<and> TooniePixelRadius (main no_circles) = 0
   \<and> pixels_per_metric (main no_circles) = PInf
   \<and> printed ''Radius in image (pixels) '' (trace (main no_circles)) = Some (cout_int 0)
   \<and> printed ''Centimetres-Per-Pixel - '' (trace (main no_circles)) = Some (cout_float PInf)
   \<and> last (trace (main no_circles)) = waitKey 0"
proof -
  have h1: "rounding (fl no_circles) (1 / 2 ^ 24)"
    by (simp add: no_circles_def lib_fl rounding_id)
  have h2: "circles (main no_circles) = []" by (simp add: no_circles_def lib_circles)
  from no_circles_infinite_scale[OF h1 h2] h1 h2 show ?thesis by blast
qed

text \<open>
  Claim C5, as amended. When no contour is found, the foot rectangle keeps its default
  value of zeros and the report prints zero for the foot length and width in pixels. In
  centimetres it prints zero times the scale: zero when the coin pixel radius is not zero,
  and NaN when it is zero, since the scale is then infinite.
\<close>

theorem no_contours_report:
  assumes "rounding (fl e) u" and "contours (main e) = []"
  shows "footRect (main e) = Rect_default
       \<and> printed ''Foot Length (pixels) - '' (trace (main e)) = Some (cout_int 0)
       \<and> printed ''Foot Width (pixels) - '' (trace (main e)) = Some (cout_int 0)
       \<and> printed ''Foot Length (cm) - '' (trace (main e)) =
           Some (cout_float (if TooniePixelRadius (main e) = 0 then NaN else Fin 0))
       \<and> printed ''Foot Width(cm) - '' (trace (main e)) =
           Some (cout_float (if TooniePixelRadius (main e) = 0 then NaN else Fin 0))
       \<and> last (trace (main e)) = waitKey 0"
proof -
  have f: "footRect (main e) = Rect_default" by (simp add: main_footRect assms(2))
  have z: "fl e 0 = 0" by (rule rounding_zero[OF assms(1)])
  have k: "0 < fl e (1325 / 1000)" by (rule Toonie_RADIUS_pos[OF assms(1)])
  have m: "mul_int_float (fl e) 0 (pixels_per_metric (main e)) =
             (if TooniePixelRadius (main e) = 0 then NaN else Fin 0)"
  proof (cases "TooniePixelRadius (main e) = 0")
    case True
    then have "pixels_per_metric (main e) = PInf"
      using k by (simp add: main_scale div_float_int_def Toonie_RADIUS_def z)
    with True show ?thesis by (simp add: mul_int_float_def z)
  next
    case False
    then have "fl e (real_of_int (sint (TooniePixelRadius (main e)))) \<noteq> 0"
      using rounding_sint_eq_0_iff[OF assms(1), of "TooniePixelRadius (main e)"] by simp
    then obtain s where "pixels_per_metric (main e) = Fin s"
      by (simp add: main_scale div_float_int_def Toonie_RADIUS_def Let_def del: of_int_sint)
    with False show ?thesis by (simp add: mul_int_float_def z)
  qed
  have hw: "height (footRect (main e)) = 0" "width (footRect (main e)) = 0"
    by (simp_all add: f Rect_default_def)
  show ?thesis
  proof (intro conjI)
    show "footRect (main e) = Rect_default" by (rule f)
    show "printed ''Foot Length (pixels) - '' (trace (main e)) = Some (cout_int 0)"
      by (simp only: main_printed hw)
    show "printed ''Foot Width (pixels) - '' (trace (main e)) = Some (cout_int 0)"
      by (simp only: main_printed hw)
    show "printed ''Foot Length (cm) - '' (trace (main e)) =
           Some (cout_float (if TooniePixelRadius (main e) = 0 then NaN else Fin 0))"
      by (simp only: main_printed hw m)
    show "printed ''Foot Width(cm) - '' (trace (main e)) =
           Some (cout_float (if TooniePixelRadius (main e) = 0 then NaN else Fin 0))"
      by (simp only: main_printed hw m)
    show "last (trace (main e)) = waitKey 0" by (rule main_last)
  qed
qed

theorem no_contours_report_witness:
  "rounding (fl no_contours) (1 / 2 ^ 24) \<and> contours (main no_contours) = []
   \<and> TooniePixelRadius (main no_contours) = 26
   \<and> footRect (main no_contours) = Rect_default
   \<and> printed ''Foot Length (pixels) - '' (trace (main no_contours)) = Some (cout_int 0)
   \<and> printed ''Foot Width (pixels) - '' (trace (main no_contours)) = Some (cout_int 0)
   \<and> printed ''Foot Length (cm) - '' (trace (main no_contours)) = Some (cout_float (Fin 0))
   \<and> printed ''Foot Width(cm) - '' (trace (main no_contours)) = Some (cout_float (Fin 0))"
proof -
  have h1: "rounding (fl no_contours) (1 / 2 ^ 24)"
    by (simp add: no_contours_def lib_fl rounding_id)
  have h2: "contours (main no_contours) = []" by (simp add: no_contours_def lib_contours)
  have t: "TooniePixelRadius (main no_contours) = 26"
    unfolding main_radius circles_loop_fst unfolding no_contours_def lib_circles
    by (simp add: lib_radius_of cvRound_def Let_def)
  from no_contours_report[OF h1 h2] h1 h2 t show ?thesis by simp
qed

text \<open>As stated, with zero printed in centimetres in every case, the claim fails when
  neither a contour nor a circle is found: NaN is printed.\<close>

theorem no_contours_no_circles_prints_nan:
  "contours (main nothing_found) = [] \<and> circles (main nothing_found) = []
   \<and> printed ''Foot Length (cm) - '' (trace (main nothing_found)) = Some (cout_float NaN)
   \<and> printed ''Foot Width(cm) - '' (trace (main nothing_found)) = Some (cout_float NaN)"
proof -
  have t: "TooniePixelRadius (main nothing_found) = 0"
    by (simp add: main_radius nothing_found_def lib_circles)
  have f: "footRect (main nothing_found) = Rect_default"
    by (simp add: main_footRect nothing_found_def lib_contours)
  have p: "pixels_per_metric (main nothing_found) = PInf"
    unfolding main_scale t
    by (simp add: div_float_int_def Toonie_RADIUS_def nothing_found_def lib_fl)
  have m: "mul_int_float (fl nothing_found) 0 PInf = NaN"
    by (simp add: mul_int_float_def nothing_found_def lib_fl)
  have hw: "height (footRect (main nothing_found)) = 0" "width (footRect (main nothing_found)) = 0"
    by (simp_all add: f Rect_default_def)
  show ?thesis
    by (simp add: main_printed hw p m) (simp add: nothing_found_def lib_contours lib_circles)
qed

text \<open>
  Claim C6, as amended. The circle transform is called once, on the blurred grey image,
  with a minimum radius of zero, a maximum radius of 30 and a minimum distance of 50
  between centres: a fixed minimum separation and an upper bound on the radius, and no
  positive lower bound.
\<close>

theorem hough_configuration:
  "circles (main e) = HoughCircles e (gray (main e)) hough_args
   \<and> gray (main e) = GaussianBlur (cvtColor input_blurred COLOR_RGB2GRAY) (3, 3) 0 0
   \<and> minRadius hough_args = 0 \<and> maxRadius hough_args = 30 \<and> minDist hough_args = 50"
  by (simp add: main_circles main_gray hough_args_def)

text \<open>As stated, with a positive minimum radius, the claim fails.\<close>

theorem hough_minRadius_not_positive: "\<not> 0 < minRadius hough_args"
  by (simp add: hough_args_def)

text \<open>
  Claim C7, as amended. The skin-mask stage first blurs the input colour image, in place,
  then converts the blurred image to hue, saturation and value, then keeps channel 1 (the
  saturation), then thresholds it to zero at 45; that thresholded channel is its output,
  on which \<open>main\<close> later writes a caption.
\<close>

theorem SkinMask_order:
  "SkinMask input =
     (GaussianBlur input (3, 3) 0 0,
      threshold (split_chann (cvtColor (GaussianBlur input (3, 3) 0 0) COLOR_RGB2HSV) 1)
        45 255 THRESH_TOZERO)
   \<and> hsv (main e) =
       putText (snd (SkinMask (imread ''soleTestWithReference.png''))) ''HSV-Filtered Image''
         (Point 10 (int_div (rows e (snd (SkinMask (imread ''soleTestWithReference.png'')))) 10))
         FONT_HERSHEY_COMPLEX_SMALL 1 (CV_RGB 255 255 255) 2"
  by (simp add: main_hsv) (simp add: SkinMask_def Let_def)

text \<open>As stated, with the conversion before the blur, the claim fails: the two orders
  are different sequences of calls.\<close>

theorem SkinMask_differs_from_spec_order:
  "snd (SkinMask (imread ''soleTestWithReference.png''))
     \<noteq> SkinMask_spec (imread ''soleTestWithReference.png'')"
  by (simp add: SkinMask_def SkinMask_spec_def Let_def)

text \<open>
  Claim C8, as amended. What is drawn on the image is, in this order, one circle for
  every detected circle (at its integer centre, with its integer radius), the foot
  rectangle from its top-left to its bottom-right corner, and a caption.
\<close>

theorem drawn_on_image:
  "drawn (bottomTestImage (main e)) =
     map (\<lambda>v. a_circle (center_of e v) (radius_of e v)) (circles (main e))
       @ [a_rectangle (tl (footRect (main e))) (br (footRect (main e))),
          a_text ''Detected Foot + Toonie Contours'']"
  by (simp add: main_drawn circles_loop_drawn drawn_input_blurred)

text \<open>As stated, with only the selected circle drawn, the claim fails: in the demo the
  circle of radius 12 is drawn although the selected radius is 26.\<close>

theorem every_circle_is_drawn:
  "TooniePixelRadius (main demo) = 26
   \<and> drawn (bottomTestImage (main demo)) =
       [a_circle (Point 300 200) 26, a_circle (Point 20 30) 12,
        a_rectangle (Point 5 6) (Point 35 86), a_text ''Detected Foot + Toonie Contours'']"
proof -
  have "drawn (bottomTestImage (main demo)) =
       [a_circle (Point 300 200) 26, a_circle (Point 20 30) 12,
        a_rectangle (Point 5 6) (Point 35 86), a_text ''Detected Foot + Toonie Contours'']"
    unfolding main_drawn circles_loop_drawn drawn_input_blurred demo_footRect
    unfolding demo_def lib_circles
    by (simp add: center_of_def radius_of_def lib_def cvRound_def Let_def tl_def br_def)
  with demo_radius show ?thesis by simp
qed

text \<open>
  Claim C9. For a coin pixel radius \<open>R > 0\<close> the scale is finite and the scale times
  \<open>R\<close> is the known radius 1.325 up to rounding: a relative error of at most \<open>4 u\<close>.
\<close>

theorem scale_round_trip:
  assumes "rounding (fl e) u" and "0 < sint (TooniePixelRadius (main e))"
  shows "\<exists>scale. pixels_per_metric (main e) = Fin scale
           \<and> \<bar>scale * real_of_int (sint (TooniePixelRadius (main e))) - 1325 / 1000\<bar>
               \<le> 4 * u * (1325 / 1000)"
proof -
  let ?R = "real_of_int (sint (TooniePixelRadius (main e)))"
  have "\<bar>fl e (fl e (1325 / 1000) / fl e ?R) * ?R - 1325 / 1000\<bar> \<le> 4 * u * (1325 / 1000)"
    by (rule scale_error(1)[OF assms(1) _ _ sint_pos_range[OF assms(2)]]) simp_all
  with scale_finite[OF assms] show ?thesis by blast
qed

text \<open>On the inexact platform the scale for radius 26 is \<open>1.325 / 26\<close> times
  \<open>1 + 2\<^sup>-\<^sup>2\<^sup>4\<close>: the product with 26 is not 1.325, and is within the bound.\<close>

theorem scale_round_trip_witness:
  "rounding (fl demo_inexact) (1 / 2 ^ 24) \<and> 0 < sint (TooniePixelRadius (main demo_inexact))
   \<and> pixels_per_metric (main demo_inexact) = Fin (53 / 1040 * (1 + 1 / 2 ^ 24))
   \<and> \<bar>(53 / 1040 * (1 + 1 / 2 ^ 24)) * real_of_int (sint (TooniePixelRadius (main demo_inexact)))
        - 1325 / 1000\<bar> \<le> 4 * (1 / 2 ^ 24) * (1325 / 1000 :: real)"
proof -
  have f: "fl demo_inexact = (\<lambda>x. x * (1 + 1 / 2 ^ 24))"
    by (simp add: demo_inexact_def)
  have h1: "rounding (fl demo_inexact) (1 / 2 ^ 24)"
    unfolding f by (rule rounding_inexact)
  have h2: "0 < sint (TooniePixelRadius (main demo_inexact))"
    by (simp add: demo_inexact_radius)
  from scale_round_trip[OF h1 h2] obtain scale where
    r: "pixels_per_metric (main demo_inexact) = Fin scale"
       "\<bar>scale * real_of_int (sint (TooniePixelRadius (main demo_inexact))) - 1325 / 1000\<bar>
          \<le> 4 * (1 / 2 ^ 24) * (1325 / 1000)"
    by blast
  have "pixels_per_metric (main demo_inexact) = Fin (53 / 1040 * (1 + 1 / 2 ^ 24))"
    unfolding main_scale demo_inexact_radius
    by (simp add: div_float_int_def Toonie_RADIUS_def f)
  with r have "scale = 53 / 1040 * (1 + 1 / 2 ^ 24)" by simp
  with r h1 h2 show ?thesis by simp
qed

text \<open>
  Claim C10, as amended. With the library's conversion, the radius that competes for the
  coin pixel radius is the float radius of each circle rounded to the nearest integer
  (within one half of it), not truncated, and the scale is the known radius divided by
  the coin pixel radius so selected, not by a float radius.
\<close>

theorem radius_is_rounded:
  assumes "saturate_cast e = cvRound"
  shows "TooniePixelRadius (main e) =
           fold (\<lambda>v t. if t <s cvRound (radius_f v) then cvRound (radius_f v) else t)
             (circles (main e)) 0
       \<and> pixels_per_metric (main e) =
           div_float_int (fl e) (Toonie_RADIUS e) (TooniePixelRadius (main e))
       \<and> (\<forall>v \<in> set (circles (main e)). 0 \<le> radius_f v \<and> radius_f v \<le> 2 ^ 30 \<longrightarrow>
             \<bar>real_of_int (sint (cvRound (radius_f v))) - radius_f v\<bar> \<le> 1 / 2)"
proof -
  have r: "radius_of e v = cvRound (radius_f v)" for v
    by (cases v) (simp add: radius_of_def assms)
  have "fst (circles_loop e vs (t, img)) =
          fold (\<lambda>v t. if t <s cvRound (radius_f v) then cvRound (radius_f v) else t) vs t"
    for vs t img
    by (simp add: circles_loop_fst fold_map comp_def r word_sless_alt cong: if_cong)
  then have "TooniePixelRadius (main e) =
           fold (\<lambda>v t. if t <s cvRound (radius_f v) then cvRound (radius_f v) else t)
             (circles (main e)) 0"
    by (simp add: main_radius)
  moreover have "\<forall>v \<in> set (circles (main e)). 0 \<le> radius_f v \<and> radius_f v \<le> 2 ^ 30 \<longrightarrow>
             \<bar>real_of_int (sint (cvRound (radius_f v))) - radius_f v\<bar> \<le> 1 / 2"
    using cvRound_nearest by blast
  ultimately show ?thesis using main_scale by blast
qed

theorem radius_is_rounded_witness:
  "saturate_cast demo = cvRound
   \<and> TooniePixelRadius (main demo) = 26
   \<and> pixels_per_metric (main demo) = Fin (53 / 1040)
   \<and> \<bar>real_of_int (sint (cvRound (53 / 2))) - 53 / 2\<bar> \<le> 1 / 2"
proof -
  have h: "saturate_cast demo = cvRound" by (simp add: demo_def lib_saturate_cast)
  have c: "circles (main demo) = [Vec3f 300 200 (53 / 2), Vec3f 20 30 12]"
    by (simp add: demo_def lib_circles)
  from radius_is_rounded[OF h] have
    r: "TooniePixelRadius (main demo) =
           fold (\<lambda>v t. if t <s cvRound (radius_f v) then cvRound (radius_f v) else t)
             (circles (main demo)) 0"
       "pixels_per_metric (main demo) =
           div_float_int (fl demo) (Toonie_RADIUS demo) (TooniePixelRadius (main demo))"
       "\<forall>v \<in> set (circles (main demo)). 0 \<le> radius_f v \<and> radius_f v \<le> 2 ^ 30 \<longrightarrow>
             \<bar>real_of_int (sint (cvRound (radius_f v))) - radius_f v\<bar> \<le> 1 / 2"
    by blast+
  have t: "TooniePixelRadius (main demo) = 26"
    unfolding r(1) c by (simp add: cvRound_def Let_def word_sless_alt)
  have p: "pixels_per_metric (main demo) = Fin (53 / 1040)"
    unfolding r(2) t by (simp add: div_float_int_def Toonie_RADIUS_def demo_def lib_fl)
  have "\<bar>real_of_int (sint (cvRound (53 / 2))) - 53 / 2\<bar> \<le> 1 / 2"
    using r(3) unfolding c by (simp del: of_int_sint)
  with h t p show ?thesis by blast
qed

text \<open>As stated, with truncation, the claim fails: a radius of 2.6 becomes 3, where
  truncation gives 2, and the scale is 1.325 / 3.\<close>

theorem radius_is_rounded_counterexample:
  "saturate_cast small_coin = cvRound
   \<and> circles (main small_coin) = [Vec3f 100 100 (26 / 10)]
   \<and> TooniePixelRadius (main small_coin) = 3
   \<and> truncate_cast (26 / 10) = 2
   \<and> pixels_per_metric (main small_coin) = Fin (53 / 120)"
proof -
  have t: "TooniePixelRadius (main small_coin) = 3"
    unfolding main_radius circles_loop_fst unfolding small_coin_def lib_circles
    by (simp add: lib_radius_of cvRound_def Let_def)
  have "pixels_per_metric (main small_coin) = Fin (53 / 120)"
    unfolding main_scale t
    by (simp add: div_float_int_def Toonie_RADIUS_def small_coin_def lib_fl)
  with t show ?thesis
    by (simp add: small_coin_def lib_saturate_cast lib_circles truncate_cast_def)
qed

end
